theory Spec2Isabelle
  imports Main
begin

section \<open>Values exchanged with the host API\<close>

text \<open>
  The analyzer of \<^verbatim>\<open>src/main.py\<close> handles decoded JSON bodies, which Python represents by
  \<^verbatim>\<open>None\<close>, booleans, numbers, strings, lists and dictionaries. A dictionary is an
  association list; lookups use the first binding of a key. Numbers are integers.
\<close>

datatype json =
    JNull
  | JBool bool
  | JNum int
  | JStr string
  | JList "json list"
  | JDict "(string \<times> json) list"

text \<open>
  Exceptions. \<open>RequestFailed\<close> is the \<^verbatim>\<open>Exception\<close> raised for a status other than 200,
  \<open>NetworkError\<close> is a \<^verbatim>\<open>requests.exceptions.RequestException\<close> carrying its message,
  and \<open>PyError\<close> stands for the \<^verbatim>\<open>TypeError\<close>, \<^verbatim>\<open>AttributeError\<close>, \<^verbatim>\<open>KeyError\<close>
  or \<^verbatim>\<open>ValueError\<close> that Python raises on a value of the wrong shape.
\<close>

datatype error =
    RequestFailed nat string
  | NetworkError string
  | PyError string

subsection \<open>Strings\<close>

fun starts_with :: "string \<Rightarrow> string \<Rightarrow> bool" where
  "starts_with [] s = True"
| "starts_with (p # ps) [] = False"
| "starts_with (p # ps) (c # cs) = (p = c \<and> starts_with ps cs)"

text \<open>Python's \<^verbatim>\<open>needle in haystack\<close> on strings.\<close>

fun contains :: "string \<Rightarrow> string \<Rightarrow> bool" where
  "contains p [] = (p = [])"
| "contains p (c # cs) = (starts_with p (c # cs) \<or> contains p cs)"

text \<open>\<^verbatim>\<open>str.lower()\<close> on the ASCII letters.\<close>

definition lower_char :: "char \<Rightarrow> char" where
  "lower_char c =
     (if 65 \<le> (of_char c :: nat) \<and> (of_char c :: nat) \<le> 90
      then char_of ((of_char c :: nat) + 32) else c)"

definition lower :: "string \<Rightarrow> string" where
  "lower s = map lower_char s"

text \<open>\<^verbatim>\<open>s.split('/')[-1]\<close>: the part of \<open>s\<close> after its last slash.\<close>

definition last_segment :: "string \<Rightarrow> string" where
  "last_segment s = rev (takeWhile (\<lambda>c. c \<noteq> CHR ''/'') (rev s))"

text \<open>Decimal rendering of a natural number, as an f-string prints a status code.\<close>

definition digit_char :: "nat \<Rightarrow> char" where
  "digit_char n = ''0123456789'' ! n"

fun digits :: "nat \<Rightarrow> nat \<Rightarrow> string" where
  "digits 0 n = []"
| "digits (Suc f) n =
     (if n < 10 then [digit_char n]
      else digits f (n div 10) @ [digit_char (n mod 10)])"

definition show_nat :: "nat \<Rightarrow> string" where
  "show_nat n = digits (Suc n) n"

text \<open>\<^verbatim>\<open>str(e)\<close> for the three kinds of exception.\<close>

fun err_str :: "error \<Rightarrow> string" where
  "err_str (RequestFailed code body) =
     ''API request failed: '' @ show_nat code @ '' - '' @ body"
| "err_str (NetworkError msg) = msg"
| "err_str (PyError msg) = msg"

subsection \<open>Python operations on decoded values\<close>

text \<open>Truth value of a decoded value, as \<^verbatim>\<open>if x:\<close> tests it.\<close>

fun truthy :: "json \<Rightarrow> bool" where
  "truthy JNull = False"
| "truthy (JBool b) = b"
| "truthy (JNum n) = (n \<noteq> 0)"
| "truthy (JStr s) = (s \<noteq> [])"
| "truthy (JList xs) = (xs \<noteq> [])"
| "truthy (JDict d) = (d \<noteq> [])"

text \<open>\<^verbatim>\<open>x.get(k, default)\<close>: only a dictionary has the method.\<close>

fun py_get :: "json \<Rightarrow> string \<Rightarrow> json \<Rightarrow> error + json" where
  "py_get (JDict d) k dflt = Inr (case map_of d k of Some v \<Rightarrow> v | None \<Rightarrow> dflt)"
| "py_get _ k dflt = Inl (PyError ''AttributeError'')"

text \<open>\<^verbatim>\<open>x[k]\<close> with a string key.\<close>

fun py_index :: "json \<Rightarrow> string \<Rightarrow> error + json" where
  "py_index (JDict d) k =
     (case map_of d k of Some v \<Rightarrow> Inr v | None \<Rightarrow> Inl (PyError ''KeyError''))"
| "py_index _ k = Inl (PyError ''TypeError'')"

text \<open>\<^verbatim>\<open>k in x\<close> with a string \<open>k\<close>: membership in a list, key of a dictionary, substring of
  a string; a number, a boolean or \<^verbatim>\<open>None\<close> is not iterable.\<close>

fun py_in :: "string \<Rightarrow> json \<Rightarrow> error + bool" where
  "py_in k (JList xs) = Inr (JStr k \<in> set xs)"
| "py_in k (JDict d) = Inr (k \<in> fst ` set d)"
| "py_in k (JStr s) = Inr (contains k s)"
| "py_in k _ = Inl (PyError ''TypeError'')"

text \<open>Iteration (\<^verbatim>\<open>for x in v\<close>, \<^verbatim>\<open>list.extend(v)\<close>) and \<^verbatim>\<open>len(v)\<close>.\<close>

fun py_iter :: "json \<Rightarrow> error + json list" where
  "py_iter (JList xs) = Inr xs"
| "py_iter (JStr s) = Inr (map (\<lambda>c. JStr [c]) s)"
| "py_iter (JDict d) = Inr (map (\<lambda>kv. JStr (fst kv)) d)"
| "py_iter _ = Inl (PyError ''TypeError'')"

fun py_len :: "json \<Rightarrow> error + nat" where
  "py_len (JList xs) = Inr (length xs)"
| "py_len (JStr s) = Inr (length s)"
| "py_len (JDict d) = Inr (length d)"
| "py_len _ = Inl (PyError ''TypeError'')"

section \<open>The analyzer and its environment\<close>

text \<open>
  What a call of \<^verbatim>\<open>requests.get\<close> produces: a network-level failure with its message, or a
  response. Of a response the program reads the status code, the text, the decoded body
  (\<^verbatim>\<open>response.json()\<close>, taken to succeed where the program calls it), the two quota
  headers (taken as integers when present) and the \<^verbatim>\<open>Link\<close> header (empty when absent).
\<close>

record response =
  status_code :: nat
  body_text :: string
  body :: json
  hdr_remaining :: "int option"
  hdr_reset :: "int option"
  hdr_link :: string

datatype outcome = ConnError string | Response response

text \<open>The host API: the outcome of the \<open>n\<close>-th request the process issues.\<close>

type_synonym api = "nat \<Rightarrow> outcome"

text \<open>Effects the claims observe, in the order they happen. Of the log, the records of
  level \<^verbatim>\<open>error\<close> are traced.\<close>

datatype event =
    Request string
  | Sleep int
  | LogError string
  | SaveProgress "string set"

text \<open>The results file \<^verbatim>\<open>github_analysis_results.json\<close>.\<close>

datatype stored = Missing | Corrupt | Content json

text \<open>
  The fields of \<^verbatim>\<open>GitHubContributionAnalyzer\<close> the modelled methods use, followed by the
  environment: the clock in whole seconds (\<^verbatim>\<open>time.time()\<close>), which moves only when the
  program sleeps, the number of requests issued so far, the trace of effects, and the
  results file.
\<close>

record analyzer =
  organizations :: "string list"
  time_filter :: string
  rate_limit_remaining :: int
  rate_limit_reset :: int
  cache :: "string \<rightharpoonup> json"
  completed_users :: "string set"
  now :: int
  reqs :: nat
  trace :: "event list"
  results_file :: stored

definition base_url :: string where
  "base_url = ''https://api.github.com''"

definition emit :: "event \<Rightarrow> analyzer \<Rightarrow> analyzer" where
  "emit e s = s\<lparr>trace := trace s @ [e]\<rparr>"

definition log_error :: "string \<Rightarrow> analyzer \<Rightarrow> analyzer" where
  "log_error msg s = emit (LogError msg) s"

text \<open>\<^verbatim>\<open>time.sleep(w)\<close> advances the clock by \<open>w\<close>.\<close>

definition sleep :: "int \<Rightarrow> analyzer \<Rightarrow> analyzer" where
  "sleep w s = emit (Sleep w) (s\<lparr>now := now s + w\<rparr>)"

text \<open>\<^verbatim>\<open>requests.get(url, headers=self.headers)\<close>: the request is counted and traced,
  and the host gives its outcome.\<close>

definition requested :: "string \<Rightarrow> analyzer \<Rightarrow> analyzer" where
  "requested url s = emit (Request url) (s\<lparr>reqs := Suc (reqs s)\<rparr>)"

definition http_get :: "api \<Rightarrow> string \<Rightarrow> analyzer \<Rightarrow> outcome \<times> analyzer" where
  "http_get net url s = (net (reqs s), requested url s)"

subsection \<open>Quota tracking\<close>

text \<open>\<^verbatim>\<open>data['resources']['core'][k]\<close>, read as an integer: the quota fields of the
  analyzer are integers, and a value that is not a number is treated as a missing one.\<close>

definition core_field :: "json \<Rightarrow> string \<Rightarrow> error + int" where
  "core_field data k =
     (case py_index data ''resources'' of
        Inl e \<Rightarrow> Inl e
      | Inr r \<Rightarrow>
          (case py_index r ''core'' of
             Inl e \<Rightarrow> Inl e
           | Inr c \<Rightarrow>
               (case py_index c k of
                  Inl e \<Rightarrow> Inl e
                | Inr (JNum n) \<Rightarrow> Inr n
                | Inr _ \<Rightarrow> Inl (PyError ''TypeError''))))"

text \<open>
  \<^verbatim>\<open>update_rate_limit_info\<close>: one request to the quota endpoint. Status 200 overwrites the
  two fields, in the order of the source, so that a body without \<^verbatim>\<open>reset\<close> still updates
  \<^verbatim>\<open>rate_limit_remaining\<close>. Every exception is caught and logged.
\<close>

definition update_rate_limit_info :: "api \<Rightarrow> analyzer \<Rightarrow> analyzer" where
  "update_rate_limit_info net s =
     (case http_get net (base_url @ ''/rate_limit'') s of
        (ConnError msg, s1) \<Rightarrow> log_error (''Error checking rate limits: '' @ msg) s1
      | (Response r, s1) \<Rightarrow>
          if status_code r = 200 then
            (case core_field (body r) ''remaining'' of
               Inl e \<Rightarrow> log_error (''Error checking rate limits: '' @ err_str e) s1
             | Inr rem \<Rightarrow>
                 (let s2 = s1\<lparr>rate_limit_remaining := rem\<rparr> in
                  case core_field (body r) ''reset'' of
                    Inl e \<Rightarrow> log_error (''Error checking rate limits: '' @ err_str e) s2
                  | Inr rst \<Rightarrow> s2\<lparr>rate_limit_reset := rst\<rparr>))
          else s1)"

text \<open>\<^verbatim>\<open>wait_for_rate_limit\<close>, lines 76 to 85.\<close>

definition wait_for_rate_limit :: "api \<Rightarrow> analyzer \<Rightarrow> analyzer" where
  "wait_for_rate_limit net s =
     (if rate_limit_remaining s < 10 then
        (let current_time = now s in
         if current_time < rate_limit_reset s then
           (let wait_time = rate_limit_reset s - current_time + 5 in
            update_rate_limit_info net (sleep wait_time s))
         else s)
      else s)"

subsection \<open>Paginated fetching\<close>

text \<open>\<^verbatim>\<open>s.split(sep)\<close> for a separator of one character.\<close>

fun split_on :: "char \<Rightarrow> string \<Rightarrow> string list" where
  "split_on sep [] = [[]]"
| "split_on sep (c # cs) =
     (if c = sep then [] # split_on sep cs
      else (case split_on sep cs of
              [] \<Rightarrow> [[c]]
            | w # ws \<Rightarrow> (c # w) # ws))"

text \<open>\<^verbatim>\<open>s.index(c)\<close>: the first position of \<open>c\<close>, or \<^verbatim>\<open>ValueError\<close>.\<close>

fun index_of :: "char \<Rightarrow> string \<Rightarrow> nat option" where
  "index_of c [] = None"
| "index_of c (x # xs) =
     (if x = c then Some 0 else map_option Suc (index_of c xs))"

definition rel_next :: string where
  \<open>rel_next = ''rel="next"''\<close>

text \<open>
  Lines 582 to 588: the first part of the \<^verbatim>\<open>Link\<close> header that mentions \<^verbatim>\<open>rel="next"\<close>
  gives the next URL, the text between its first \<^verbatim>\<open><\<close> and its first \<^verbatim>\<open>>\<close>. No such
  part leaves \<^verbatim>\<open>next_url = None\<close>, which the model writes as the empty string: the loop
  tests \<^verbatim>\<open>next_url\<close> for truth only.
\<close>

fun next_link :: "string list \<Rightarrow> error + string" where
  "next_link [] = Inr []"
| "next_link (link # links) =
     (if contains rel_next link then
        (case index_of CHR ''<'' link of
           None \<Rightarrow> Inl (PyError ''ValueError'')
         | Some a \<Rightarrow>
             (case index_of CHR ''>'' link of
                None \<Rightarrow> Inl (PyError ''ValueError'')
              | Some b \<Rightarrow> Inr (take (b - (a + 1)) (drop (a + 1) link))))
      else next_link links)"

text \<open>Lines 543 to 546: the quota headers of a response overwrite the tracked quota.\<close>

definition note_headers :: "response \<Rightarrow> analyzer \<Rightarrow> analyzer" where
  "note_headers r s =
     (let s1 = (case hdr_remaining r of
                  Some n \<Rightarrow> s\<lparr>rate_limit_remaining := n\<rparr>
                | None \<Rightarrow> s)
      in case hdr_reset r of
           Some t \<Rightarrow> s1\<lparr>rate_limit_reset := t\<rparr>
         | None \<Rightarrow> s1)"

text \<open>\<^verbatim>\<open>d[k] = v\<close> on a dictionary.\<close>

fun dict_set :: "(string \<times> 'v) list \<Rightarrow> string \<Rightarrow> 'v \<Rightarrow> (string \<times> 'v) list" where
  "dict_set [] k v = [(k, v)]"
| "dict_set ((k', v') # d) k v =
     (if k' = k then (k, v) # d else (k', v') # dict_set d k v)"

text \<open>
  Lines 566 to 573: the first page fixes the shape of the accumulator. The boolean tells
  whether the loop breaks, which it does on a body that is neither a list nor a
  dictionary with \<^verbatim>\<open>items\<close>.
\<close>

definition init_results :: "json \<Rightarrow> json \<Rightarrow> json \<times> bool" where
  "init_results results data =
     (if results = JNull then
        (case data of
           JList xs \<Rightarrow> (JList [], False)
         | JDict d \<Rightarrow>
             if ''items'' \<in> fst ` set d then (JDict [(''items'', JList [])], False)
             else (data, True)
         | _ \<Rightarrow> (data, True))
      else (results, False))"

text \<open>\<^verbatim>\<open>results['items'].extend(data['items'])\<close>, the list extended in place.\<close>

definition extend_items :: "json \<Rightarrow> json \<Rightarrow> error + json" where
  "extend_items results data =
     (case py_index results ''items'' of
        Inl e \<Rightarrow> Inl e
      | Inr (JList acc) \<Rightarrow>
          (case py_index data ''items'' of
             Inl e \<Rightarrow> Inl e
           | Inr new \<Rightarrow>
               (case py_iter new of
                  Inl e \<Rightarrow> Inl e
                | Inr xs \<Rightarrow>
                    (case results of
                       JDict d \<Rightarrow> Inr (JDict (dict_set d ''items'' (JList (acc @ xs))))
                     | _ \<Rightarrow> Inl (PyError ''TypeError''))))
      | Inr _ \<Rightarrow> Inl (PyError ''AttributeError''))"

text \<open>Lines 576 to 579: a page is appended when its shape matches the accumulator's.\<close>

definition combine :: "json \<Rightarrow> json \<Rightarrow> error + json" where
  "combine results data =
     (case (results, data) of
        (JList rs, JList ds) \<Rightarrow> Inr (JList (rs @ ds))
      | _ \<Rightarrow>
          (case py_in ''items'' results of
             Inl e \<Rightarrow> Inl e
           | Inr False \<Rightarrow> Inr results
           | Inr True \<Rightarrow>
               (case py_in ''items'' data of
                  Inl e \<Rightarrow> Inl e
                | Inr False \<Rightarrow> Inr results
                | Inr True \<Rightarrow> extend_items results data)))"

text \<open>What one pass through the body of the \<^verbatim>\<open>while\<close> loop leads to.\<close>

datatype step =
    Raise error analyzer
  | Break json analyzer
  | Continue string json analyzer
  | Restart analyzer
  | Failed string analyzer

text \<open>Lines 558 to 593, for a response that is not treated as quota exhaustion.\<close>

definition check_page :: "api \<Rightarrow> response \<Rightarrow> json \<Rightarrow> analyzer \<Rightarrow> step" where
  "check_page net r results s =
     (if status_code r \<noteq> 200 then
        Raise (RequestFailed (status_code r) (body_text r)) s
      else
        (case init_results results (body r) of
           (res, True) \<Rightarrow> Break res s
         | (res, False) \<Rightarrow>
             (case combine res (body r) of
                Inl e \<Rightarrow> Raise e s
              | Inr res' \<Rightarrow>
                  (case next_link (split_on CHR '','' (hdr_link r)) of
                     Inl e \<Rightarrow> Raise e s
                   | Inr next_url \<Rightarrow>
                       if next_url \<noteq> [] then
                         Continue next_url res' (wait_for_rate_limit net s)
                       else Continue next_url res' s))))"

text \<open>
  Lines 540 to 593: one request and what follows from its outcome. A response with status
  403 and the rate-limit phrase sleeps and restarts when the wait is positive; otherwise
  it refreshes the quota and goes on to the status check of line 558.
\<close>

definition request_page :: "api \<Rightarrow> string \<Rightarrow> json \<Rightarrow> analyzer \<Rightarrow> step" where
  "request_page net next_url results s =
     (case http_get net next_url s of
        (ConnError msg, s1) \<Rightarrow> Failed msg s1
      | (Response r, s1) \<Rightarrow>
          (let s2 = note_headers r s1 in
           if status_code r = 403 \<and> contains ''rate limit exceeded'' (lower (body_text r)) then
             (let wait_time = rate_limit_reset s2 - now s2 + 5 in
              if wait_time > 0 then Restart (sleep wait_time s2)
              else check_page net r results (update_rate_limit_info net s2))
           else check_page net r results s2))"

text \<open>
  Lines 594 to 604, the handler of \<^verbatim>\<open>requests.exceptions.RequestException\<close>: either the new
  retry count and the state after the back-off sleep, or the exception raised again.
\<close>

definition on_network_error ::
  "string \<Rightarrow> nat \<Rightarrow> string \<Rightarrow> analyzer \<Rightarrow> (error \<times> analyzer) + (nat \<times> analyzer)" where
  "on_network_error url retry_count msg s =
     (let s1 = log_error (''Network error: '' @ msg) s in
      if retry_count < 3 then
        (let retry_count' = retry_count + 1; wait_time = 2 ^ retry_count'
         in Inr (retry_count', sleep wait_time s1))
      else Inl (NetworkError msg, log_error (''Max retries exceeded for '' @ url) s1))"

text \<open>
  \<^verbatim>\<open>_paginated_request\<close>, lines 513 to 608, and its \<^verbatim>\<open>while\<close> loop. The loop may run for ever
  (a host that always names a next page, or always answers 403), so both functions take
  fuel, spent by every pass through the loop; \<open>None\<close> means the fuel ran out. The restart
  of line 554 happens inside the \<^verbatim>\<open>try\<close> block, so a network error raised by the restarted
  call is caught by the handler of the calling loop.
\<close>

fun paginated_request ::
    "api \<Rightarrow> nat \<Rightarrow> string \<Rightarrow> analyzer \<Rightarrow> ((error + json) \<times> analyzer) option"
  and fetch_pages ::
    "api \<Rightarrow> nat \<Rightarrow> string \<Rightarrow> string \<Rightarrow> json \<Rightarrow> nat \<Rightarrow> analyzer
      \<Rightarrow> ((error + json) \<times> analyzer) option"
where
  "paginated_request net fuel url s =
     (case cache s url of
        Some v \<Rightarrow> Some (Inr v, s)
      | None \<Rightarrow> fetch_pages net fuel url url JNull 0 (wait_for_rate_limit net s))"
| "fetch_pages net 0 url next_url results retry_count s = None"
| "fetch_pages net (Suc fuel) url next_url results retry_count s =
     (if next_url = [] then
        Some (Inr results, s\<lparr>cache := (cache s)(url \<mapsto> results)\<rparr>)
      else
        (case request_page net next_url results s of
           Raise e s1 \<Rightarrow> Some (Inl e, s1)
         | Break res s1 \<Rightarrow> Some (Inr res, s1\<lparr>cache := (cache s1)(url \<mapsto> res)\<rparr>)
         | Continue next_url' res s1 \<Rightarrow> fetch_pages net fuel url next_url' res 0 s1
         | Failed msg s1 \<Rightarrow>
             (case on_network_error url retry_count msg s1 of
                Inl (e, s2) \<Rightarrow> Some (Inl e, s2)
              | Inr (retry_count', s2) \<Rightarrow>
                  fetch_pages net fuel url next_url results retry_count' s2)
         | Restart s1 \<Rightarrow>
             (case paginated_request net fuel url s1 of
                None \<Rightarrow> None
              | Some (Inl (NetworkError msg), s2) \<Rightarrow>
                  (case on_network_error url retry_count msg s2 of
                     Inl (e, s3) \<Rightarrow> Some (Inl e, s3)
                   | Inr (retry_count', s3) \<Rightarrow>
                       fetch_pages net fuel url next_url results retry_count' s3)
              | Some (res, s2) \<Rightarrow> Some (res, s2))))"

section \<open>Statistics of one user\<close>

text \<open>
  A Python set is a list without repetitions. Python leaves the order of iteration over a
  set open; the model iterates in the order of insertion. The field
  \<^verbatim>\<open>repos_contributed\<close> holds a set while the statistics are collected and its size
  afterwards (lines 250 and 256).
\<close>

definition set_add :: "'a \<Rightarrow> 'a list \<Rightarrow> 'a list" where
  "set_add x xs = (if x \<in> set xs then xs else xs @ [x])"

datatype repos = RepoSet "string list" | RepoCount nat

text \<open>The counters kept both for the user overall and for every organization.\<close>

record counters =
  pr_total :: nat
  pr_merged :: nat
  pr_open :: nat
  commits :: nat
  issues_opened :: nat
  issues_closed :: nat
  issues_commented :: nat
  repos_contributed :: repos
  reviews_submitted :: nat

text \<open>
  The dictionary \<^verbatim>\<open>stats\<close> of \<^verbatim>\<open>get_user_stats\<close> up to line 256: the user name, the
  top-level counters, and \<^verbatim>\<open>stats['organizations']\<close>, a dictionary from organization to
  counters.
\<close>

record stats =
  username :: string
  overall :: counters
  per_org :: "(string \<times> counters) list"

definition zero_counters :: counters where
  "zero_counters =
     \<lparr>pr_total = 0, pr_merged = 0, pr_open = 0, commits = 0, issues_opened = 0,
      issues_closed = 0, issues_commented = 0, repos_contributed = RepoSet [],
      reviews_submitted = 0\<rparr>"

text \<open>Lines 123 to 149.\<close>

definition initial_stats :: "string \<Rightarrow> string list \<Rightarrow> stats" where
  "initial_stats user orgs =
     \<lparr>username = user, overall = zero_counters,
      per_org = foldl (\<lambda>d org. dict_set d org zero_counters) [] orgs\<rparr>"

text \<open>Sequencing of computations that may raise.\<close>

definition then_do :: "error + 'a \<Rightarrow> ('a \<Rightarrow> error + 'b) \<Rightarrow> error + 'b" where
  "then_do m f = (case m of Inl e \<Rightarrow> Inl e | Inr x \<Rightarrow> f x)"

definition and_then ::
  "((error + 'a) \<times> analyzer) option \<Rightarrow> ('a \<Rightarrow> analyzer \<Rightarrow> ((error + 'b) \<times> analyzer) option)
    \<Rightarrow> ((error + 'b) \<times> analyzer) option" where
  "and_then m f =
     (case m of
        None \<Rightarrow> None
      | Some (Inl e, s) \<Rightarrow> Some (Inl e, s)
      | Some (Inr x, s) \<Rightarrow> f x s)"

text \<open>A pure computation placed in the sequence of stateful ones.\<close>

definition lift :: "error + 'a \<Rightarrow> analyzer \<Rightarrow> ((error + 'a) \<times> analyzer) option" where
  "lift m s = Some (m, s)"

text \<open>
  Lines 177 to 181 and 199 to 203: the repository of a pull request or issue is added to
  the organization's set under its name and to the overall set under
  \<^verbatim>\<open>org/name\<close>. The pair is (overall counters, counters of the organization).
\<close>

definition add_repo :: "string \<Rightarrow> json \<Rightarrow> counters \<times> counters \<Rightarrow> error + counters \<times> counters" where
  "add_repo org item c =
     then_do (py_get item ''repository_url'' (JStr [])) (\<lambda>repo_url.
       if truthy repo_url then
         (case repo_url of
            JStr u \<Rightarrow>
              (let repo_name = last_segment u in
               case repos_contributed (snd c) of
                 RepoCount n \<Rightarrow> Inl (PyError ''AttributeError'')
               | RepoSet org_repos \<Rightarrow>
                   (case repos_contributed (fst c) of
                      RepoCount n \<Rightarrow> Inl (PyError ''AttributeError'')
                    | RepoSet all_repos \<Rightarrow>
                        Inr ((fst c)\<lparr>repos_contributed :=
                                RepoSet (set_add (org @ ''/'' @ repo_name) all_repos)\<rparr>,
                             (snd c)\<lparr>repos_contributed :=
                                RepoSet (set_add repo_name org_repos)\<rparr>)))
          | _ \<Rightarrow> Inl (PyError ''AttributeError''))
       else Inr c)"

text \<open>\<^verbatim>\<open>pr.get('pull_request', {}).get('merged_at')\<close>, line 172.\<close>

definition merged_at :: "json \<Rightarrow> error + json" where
  "merged_at pr =
     then_do (py_get pr ''pull_request'' (JDict [])) (\<lambda>p. py_get p ''merged_at'' JNull)"

text \<open>Lines 167 to 174: the classification of one pull request.\<close>

definition classify_pr :: "json \<Rightarrow> counters \<times> counters \<Rightarrow> error + counters \<times> counters" where
  "classify_pr pr c =
     then_do (py_get pr ''state'' JNull) (\<lambda>st.
       if st = JStr ''open'' then
         Inr ((fst c)\<lparr>pr_open := pr_open (fst c) + 1\<rparr>,
              (snd c)\<lparr>pr_open := pr_open (snd c) + 1\<rparr>)
       else
         then_do (py_get pr ''state'' JNull) (\<lambda>st'.
           if st' = JStr ''closed'' then
             then_do (merged_at pr) (\<lambda>m.
               if truthy m then
                 Inr ((fst c)\<lparr>pr_merged := pr_merged (fst c) + 1\<rparr>,
                      (snd c)\<lparr>pr_merged := pr_merged (snd c) + 1\<rparr>)
               else Inr c)
           else Inr c))"

text \<open>Lines 166 to 181: the body of the loop over the pull requests.\<close>

definition count_pr :: "string \<Rightarrow> json \<Rightarrow> counters \<times> counters \<Rightarrow> error + counters \<times> counters" where
  "count_pr org pr c = then_do (classify_pr pr c) (add_repo org pr)"

text \<open>Lines 193 to 203: the body of the loop over the issues.\<close>

definition count_issue :: "string \<Rightarrow> json \<Rightarrow> counters \<times> counters \<Rightarrow> error + counters \<times> counters" where
  "count_issue org issue c =
     then_do (py_get issue ''state'' JNull) (\<lambda>st.
       add_repo org issue
         (if st = JStr ''closed'' then
            ((fst c)\<lparr>issues_closed := issues_closed (fst c) + 1\<rparr>,
             (snd c)\<lparr>issues_closed := issues_closed (snd c) + 1\<rparr>)
          else c))"

text \<open>A \<^verbatim>\<open>for\<close> loop whose body may raise.\<close>

fun for_each :: "('a \<Rightarrow> 'c \<Rightarrow> error + 'c) \<Rightarrow> 'a list \<Rightarrow> 'c \<Rightarrow> error + 'c" where
  "for_each f [] c = Inr c"
| "for_each f (x # xs) c = then_do (f x c) (for_each f xs)"

text \<open>
  The test \<^verbatim>\<open>if data and 'items' in data\<close> followed by \<^verbatim>\<open>data['items']\<close>: the items when
  the test succeeds, nothing when it fails.
\<close>

definition items_of :: "json \<Rightarrow> error + json option" where
  "items_of data =
     (if truthy data then
        then_do (py_in ''items'' data) (\<lambda>b.
          if b then then_do (py_index data ''items'') (\<lambda>items. Inr (Some items))
          else Inr None)
      else Inr None)"

text \<open>The URLs of the queries, lines 157, 184, 213, 224, 232 and 237.\<close>

definition search_url :: "string \<Rightarrow> string \<Rightarrow> string \<Rightarrow> string \<Rightarrow> string \<Rightarrow> string" where
  "search_url role user org kind tf =
     base_url @ ''/search/issues?q='' @ role @ '':'' @ user @ ''+org:'' @ org @ ''+is:''
       @ kind @ tf @ ''&per_page=100''"

definition commits_url :: "string \<Rightarrow> string \<Rightarrow> string \<Rightarrow> string" where
  "commits_url org repo_name user =
     base_url @ ''/repos/'' @ org @ ''/'' @ repo_name @ ''/commits?author='' @ user
       @ ''&per_page=100''"

text \<open>Lines 157 to 181: the pull requests the user created.\<close>

definition count_prs ::
  "api \<Rightarrow> nat \<Rightarrow> string \<Rightarrow> string \<Rightarrow> counters \<times> counters \<Rightarrow> analyzer
    \<Rightarrow> ((error + counters \<times> counters) \<times> analyzer) option" where
  "count_prs net fuel user org c s =
     and_then (paginated_request net fuel (search_url ''author'' user org ''pr'' (time_filter s)) s)
       (\<lambda>pr_data. lift
          (then_do (items_of pr_data) (\<lambda>found.
             case found of
               None \<Rightarrow> Inr c
             | Some pr_items \<Rightarrow>
                 then_do (py_len pr_items) (\<lambda>n.
                   then_do (py_iter pr_items) (\<lambda>prs.
                     for_each (count_pr org) prs
                       ((fst c)\<lparr>pr_total := pr_total (fst c) + n\<rparr>,
                        (snd c)\<lparr>pr_total := n\<rparr>))))))"

text \<open>Lines 184 to 203: the issues the user created.\<close>

definition count_issues ::
  "api \<Rightarrow> nat \<Rightarrow> string \<Rightarrow> string \<Rightarrow> counters \<times> counters \<Rightarrow> analyzer
    \<Rightarrow> ((error + counters \<times> counters) \<times> analyzer) option" where
  "count_issues net fuel user org c s =
     and_then (paginated_request net fuel (search_url ''author'' user org ''issue'' (time_filter s)) s)
       (\<lambda>issues_data. lift
          (then_do (items_of issues_data) (\<lambda>found.
             case found of
               None \<Rightarrow> Inr c
             | Some issue_items \<Rightarrow>
                 then_do (py_len issue_items) (\<lambda>n.
                   then_do (py_iter issue_items) (\<lambda>issues.
                     for_each (count_issue org) issues
                       ((fst c)\<lparr>issues_opened := issues_opened (fst c) + n\<rparr>,
                        (snd c)\<lparr>issues_opened := n\<rparr>))))))"

text \<open>Lines 212 to 217: the commits of one batch of repositories.\<close>

fun count_batch ::
  "api \<Rightarrow> nat \<Rightarrow> string \<Rightarrow> string \<Rightarrow> string list \<Rightarrow> counters \<times> counters \<Rightarrow> analyzer
    \<Rightarrow> ((error + counters \<times> counters) \<times> analyzer) option" where
  "count_batch net fuel user org [] c s = Some (Inr c, s)"
| "count_batch net fuel user org (repo_name # batch_repos) c s =
     and_then (paginated_request net fuel (commits_url org repo_name user) s)
       (\<lambda>repo_commits.
          count_batch net fuel user org batch_repos
            (case repo_commits of
               JList xs \<Rightarrow>
                 ((fst c)\<lparr>commits := commits (fst c) + length xs\<rparr>,
                  (snd c)\<lparr>commits := commits (snd c) + length xs\<rparr>)
             | _ \<Rightarrow> c))"

text \<open>Lines 210 to 221: batches of three, the quota refreshed and awaited after each.\<close>

function count_commits ::
  "api \<Rightarrow> nat \<Rightarrow> string \<Rightarrow> string \<Rightarrow> string list \<Rightarrow> counters \<times> counters \<Rightarrow> analyzer
    \<Rightarrow> ((error + counters \<times> counters) \<times> analyzer) option" where
  "count_commits net fuel user org repo_list c s =
     (if repo_list = [] then Some (Inr c, s)
      else
        and_then (count_batch net fuel user org (take 3 repo_list) c s)
          (\<lambda>c1 s1.
             count_commits net fuel user org (drop 3 repo_list) c1
               (wait_for_rate_limit net (update_rate_limit_info net s1))))"
  by pat_completeness auto
termination
  by (relation "measure (\<lambda>(net, fuel, user, org, repo_list, c, s). length repo_list)") auto

text \<open>Lines 224 to 228: the pull requests the user reviewed.\<close>

definition count_reviews ::
  "api \<Rightarrow> nat \<Rightarrow> string \<Rightarrow> string \<Rightarrow> counters \<times> counters \<Rightarrow> analyzer
    \<Rightarrow> ((error + counters \<times> counters) \<times> analyzer) option" where
  "count_reviews net fuel user org c s =
     and_then (paginated_request net fuel (search_url ''reviewed-by'' user org ''pr'' (time_filter s)) s)
       (\<lambda>review_data. lift
          (then_do (items_of review_data) (\<lambda>found.
             case found of
               None \<Rightarrow> Inr c
             | Some items \<Rightarrow>
                 then_do (py_len items) (\<lambda>n.
                   Inr ((fst c)\<lparr>reviews_submitted := reviews_submitted (fst c) + n\<rparr>,
                        (snd c)\<lparr>reviews_submitted := n\<rparr>)))))"

text \<open>The number that one of the two comment queries contributes, lines 241 to 244.\<close>

definition comment_count :: "json \<Rightarrow> error + nat" where
  "comment_count data =
     then_do (items_of data) (\<lambda>found.
       case found of None \<Rightarrow> Inr 0 | Some items \<Rightarrow> py_len items)"

text \<open>Lines 232 to 247: comments on issues and on pull requests, two queries.\<close>

definition count_comments ::
  "api \<Rightarrow> nat \<Rightarrow> string \<Rightarrow> string \<Rightarrow> counters \<times> counters \<Rightarrow> analyzer
    \<Rightarrow> ((error + counters \<times> counters) \<times> analyzer) option" where
  "count_comments net fuel user org c s =
     and_then (paginated_request net fuel (search_url ''commenter'' user org ''issue'' (time_filter s)) s)
       (\<lambda>comments_data_issues s1.
          and_then
            (paginated_request net fuel (search_url ''commenter'' user org ''pr'' (time_filter s1))
               (wait_for_rate_limit net s1))
            (\<lambda>comments_data_prs. lift
               (then_do (comment_count comments_data_issues) (\<lambda>a.
                  then_do (comment_count comments_data_prs) (\<lambda>b.
                    Inr ((fst c)\<lparr>issues_commented := issues_commented (fst c) + (a + b)\<rparr>,
                         (snd c)\<lparr>issues_commented := a + b\<rparr>))))))"

text \<open>\<^verbatim>\<open>list(org_stats['repos_contributed'])\<close>, line 208, and the collapse of line 250.\<close>

definition repo_list_of :: "counters \<Rightarrow> error + string list" where
  "repo_list_of c =
     (case repos_contributed c of
        RepoSet xs \<Rightarrow> Inr xs
      | RepoCount n \<Rightarrow> Inl (PyError ''TypeError''))"

definition collapse_repos :: "counters \<Rightarrow> error + counters" where
  "collapse_repos c =
     (case repos_contributed c of
        RepoSet xs \<Rightarrow> Inr (c\<lparr>repos_contributed := RepoCount (length xs)\<rparr>)
      | RepoCount n \<Rightarrow> Inl (PyError ''TypeError''))"

text \<open>Lines 153 to 250: the body of the loop over the organizations.\<close>

definition analyze_org ::
  "api \<Rightarrow> nat \<Rightarrow> string \<Rightarrow> string \<Rightarrow> counters \<times> counters \<Rightarrow> analyzer
    \<Rightarrow> ((error + counters \<times> counters) \<times> analyzer) option" where
  "analyze_org net fuel user org c s =
     and_then (count_prs net fuel user org c s) (\<lambda>c1 s1.
       and_then (count_issues net fuel user org c1 s1) (\<lambda>c2 s2.
         and_then (lift (repo_list_of (snd c2)) s2) (\<lambda>repo_list s3.
           and_then (count_commits net fuel user org repo_list c2 s3) (\<lambda>c3 s4.
             and_then (count_reviews net fuel user org c3 s4) (\<lambda>c4 s5.
               and_then (count_comments net fuel user org c4 s5) (\<lambda>c5 s6.
                 lift (then_do (collapse_repos (snd c5)) (\<lambda>o6. Inr (fst c5, o6))) s6))))))"

text \<open>
  Lines 152 to 250: the loop over \<^verbatim>\<open>self.organizations\<close>. \<^verbatim>\<open>org_stats\<close> is the entry of
  \<^verbatim>\<open>stats['organizations']\<close> for the organization, which line 139 created.
\<close>

fun analyze_orgs ::
  "api \<Rightarrow> nat \<Rightarrow> string list \<Rightarrow> stats \<Rightarrow> analyzer \<Rightarrow> ((error + stats) \<times> analyzer) option" where
  "analyze_orgs net fuel [] st s = Some (Inr st, s)"
| "analyze_orgs net fuel (org # orgs) st s =
     (case map_of (per_org st) org of
        None \<Rightarrow> Some (Inl (PyError ''KeyError''), s)
      | Some org_stats \<Rightarrow>
          and_then (analyze_org net fuel (username st) org (overall st, org_stats) s)
            (\<lambda>c s1.
               analyze_orgs net fuel orgs
                 (st\<lparr>overall := fst c, per_org := dict_set (per_org st) org (snd c)\<rparr>) s1))"

text \<open>
  Lines 123 to 256 of \<^verbatim>\<open>get_user_stats\<close>: the statistics before they are flattened. An
  exception is logged and raised again.
\<close>

definition collect_stats ::
  "api \<Rightarrow> nat \<Rightarrow> string \<Rightarrow> analyzer \<Rightarrow> ((error + stats) \<times> analyzer) option" where
  "collect_stats net fuel user s =
     (case analyze_orgs net fuel (organizations s) (initial_stats user (organizations s)) s of
        None \<Rightarrow> None
      | Some (Inl e, s1) \<Rightarrow>
          Some (Inl e, log_error (''Error fetching stats for '' @ user @ '': '' @ err_str e) s1)
      | Some (Inr st, s1) \<Rightarrow>
          (case collapse_repos (overall st) of
             Inl e \<Rightarrow> Some (Inl e, s1)
           | Inr collapsed \<Rightarrow> Some (Inr (st\<lparr>overall := collapsed\<rparr>), s1)))"

text \<open>The value of \<^verbatim>\<open>repos_contributed\<close> as it is stored in the record.\<close>

fun repos_value :: "repos \<Rightarrow> json" where
  "repos_value (RepoCount n) = JNum (int n)"
| "repos_value (RepoSet xs) = JList (map JStr xs)"

text \<open>The items of a dictionary of counters, in the order of lines 140 to 148.\<close>

definition counter_items :: "counters \<Rightarrow> (string \<times> json) list" where
  "counter_items c =
     [(''pr_total'', JNum (int (pr_total c))),
      (''pr_merged'', JNum (int (pr_merged c))),
      (''pr_open'', JNum (int (pr_open c))),
      (''commits'', JNum (int (commits c))),
      (''issues_opened'', JNum (int (issues_opened c))),
      (''issues_closed'', JNum (int (issues_closed c))),
      (''issues_commented'', JNum (int (issues_commented c))),
      (''repos_contributed'', repos_value (repos_contributed c)),
      (''reviews_submitted'', JNum (int (reviews_submitted c)))]"

text \<open>The top-level items, in the order of lines 124 to 133.\<close>

definition top_items :: "stats \<Rightarrow> (string \<times> json) list" where
  "top_items st =
     [(''username'', JStr (username st)),
      (''pr_total'', JNum (int (pr_total (overall st)))),
      (''pr_merged'', JNum (int (pr_merged (overall st)))),
      (''pr_open'', JNum (int (pr_open (overall st)))),
      (''commits'', JNum (int (commits (overall st)))),
      (''issues_opened'', JNum (int (issues_opened (overall st)))),
      (''issues_closed'', JNum (int (issues_closed (overall st)))),
      (''issues_commented'', JNum (int (issues_commented (overall st)))),
      (''repos_contributed'', repos_value (repos_contributed (overall st))),
      (''reviews_submitted'', JNum (int (reviews_submitted (overall st))))]"

text \<open>\<^verbatim>\<open>org.replace('-', '_')\<close> followed by an underscore, line 260.\<close>

definition org_prefix :: "string \<Rightarrow> string" where
  "org_prefix org = map (\<lambda>c. if c = CHR ''-'' then CHR ''_'' else c) org @ ''_''"

text \<open>Lines 259 to 265: the counters of every organization under prefixed keys.\<close>

fun flatten_orgs ::
  "string list \<Rightarrow> (string \<times> counters) list \<Rightarrow> (string \<times> json) list \<Rightarrow> error + (string \<times> json) list" where
  "flatten_orgs [] table d = Inr d"
| "flatten_orgs (org # orgs) table d =
     (case map_of table org of
        None \<Rightarrow> Inl (PyError ''KeyError'')
      | Some c \<Rightarrow>
          flatten_orgs orgs table
            (foldl (\<lambda>d' kv. dict_set d' (org_prefix org @ fst kv) (snd kv)) d (counter_items c)))"

text \<open>\<^verbatim>\<open>get_user_stats\<close>, lines 113 to 268. The record is a dictionary.\<close>

definition get_user_stats ::
  "api \<Rightarrow> nat \<Rightarrow> string \<Rightarrow> analyzer \<Rightarrow> ((error + (string \<times> json) list) \<times> analyzer) option" where
  "get_user_stats net fuel user s =
     and_then (collect_stats net fuel user s)
       (\<lambda>st s1. lift (flatten_orgs (organizations s1) (per_org st) (top_items st)) s1)"

section \<open>The run over all users\<close>

text \<open>
  \<^verbatim>\<open>save_progress\<close>, lines 87 to 98: the completed users are written to the progress file.
  The write is taken to succeed; its failure would only be logged.
\<close>

definition save_progress :: "analyzer \<Rightarrow> analyzer" where
  "save_progress s = emit (SaveProgress (completed_users s)) s"

text \<open>Lines 295 to 299 and 315 to 317: a record is appended and the user marked completed.\<close>

definition record_success :: "string \<Rightarrow> (string \<times> json) list \<Rightarrow> json list \<Rightarrow> analyzer \<Rightarrow> json list \<times> analyzer" where
  "record_success user user_stats results s =
     (results @ [JDict user_stats],
      save_progress (s\<lparr>completed_users := insert user (completed_users s)\<rparr>))"

text \<open>
  Lines 289 to 322, the body of the loop of \<^verbatim>\<open>analyze_users\<close>: the results and the state
  after one user. \<open>None\<close> means that a fetch ran out of fuel.
\<close>

definition analyze_user ::
  "api \<Rightarrow> nat \<Rightarrow> string \<Rightarrow> json list \<Rightarrow> analyzer \<Rightarrow> (json list \<times> analyzer) option" where
  "analyze_user net fuel user results s =
     (case get_user_stats net fuel user (wait_for_rate_limit net (update_rate_limit_info net s)) of
        None \<Rightarrow> None
      | Some (Inr user_stats, s1) \<Rightarrow> Some (record_success user user_stats results s1)
      | Some (Inl e, s1) \<Rightarrow>
          (let s2 = log_error (''Error analyzing '' @ user @ '': '' @ err_str e) s1 in
           if contains ''API rate limit exceeded'' (err_str e) then
             (case get_user_stats net fuel user
                     (wait_for_rate_limit net (update_rate_limit_info net s2)) of
                None \<Rightarrow> None
              | Some (Inr user_stats, s3) \<Rightarrow> Some (record_success user user_stats results s3)
              | Some (Inl retry_error, s3) \<Rightarrow>
                  Some (results,
                        save_progress
                          (log_error (''Failed retry for '' @ user @ '': '' @ err_str retry_error)
                             s3)))
           else Some (results, s2)))"

text \<open>Lines 287 to 322: the loop over the pending users.\<close>

fun users_loop ::
  "api \<Rightarrow> nat \<Rightarrow> string list \<Rightarrow> json list \<Rightarrow> analyzer \<Rightarrow> (json list \<times> analyzer) option" where
  "users_loop net fuel [] results s = Some (results, s)"
| "users_loop net fuel (user # pending) results s =
     (case analyze_user net fuel user results s of
        None \<Rightarrow> None
      | Some (results', s') \<Rightarrow> users_loop net fuel pending results' s')"

text \<open>\<^verbatim>\<open>x in self.completed_users\<close> for a decoded value: lists and dictionaries cannot be
  hashed.\<close>

fun in_completed :: "json \<Rightarrow> string set \<Rightarrow> error + bool" where
  "in_completed (JStr u) completed = Inr (u \<in> completed)"
| "in_completed (JList xs) completed = Inl (PyError ''TypeError'')"
| "in_completed (JDict d) completed = Inl (PyError ''TypeError'')"
| "in_completed _ completed = Inr False"

text \<open>\<^verbatim>\<open>[u['username'] for u in results]\<close>.\<close>

fun usernames_of :: "json list \<Rightarrow> error + json list" where
  "usernames_of [] = Inr []"
| "usernames_of (u # us) =
     then_do (py_index u ''username'') (\<lambda>n.
       then_do (usernames_of us) (\<lambda>ns. Inr (n # ns)))"

text \<open>
  Lines 332 to 335: the loop over the cached records. An exception ends it; what was
  appended before stays in \<^verbatim>\<open>results\<close>.
\<close>

fun add_cached :: "string set \<Rightarrow> json list \<Rightarrow> json list \<Rightarrow> json list \<times> error option" where
  "add_cached completed [] results = (results, None)"
| "add_cached completed (cached_user # rest) results =
     (case then_do (py_index cached_user ''username'') (\<lambda>n.
             then_do (in_completed n completed) (\<lambda>known.
               if known then
                 then_do (usernames_of results) (\<lambda>ns. Inr (n \<notin> set ns))
               else Inr False)) of
        Inl e \<Rightarrow> (results, Some e)
      | Inr True \<Rightarrow> add_cached completed rest (results @ [cached_user])
      | Inr False \<Rightarrow> add_cached completed rest results)"

text \<open>Lines 325 to 337: records of users completed by an earlier run are loaded.\<close>

definition load_cached :: "string list \<Rightarrow> json list \<Rightarrow> analyzer \<Rightarrow> json list \<times> analyzer" where
  "load_cached pending_users results s =
     (if completed_users s - set pending_users \<noteq> {} then
        (case results_file s of
           Missing \<Rightarrow> (results, s)
         | Corrupt \<Rightarrow>
             (results, log_error (''Error loading cached results: '' @ ''JSONDecodeError'') s)
         | Content cached_results \<Rightarrow>
             (case py_iter cached_results of
                Inl e \<Rightarrow> (results, log_error (''Error loading cached results: '' @ err_str e) s)
              | Inr cached \<Rightarrow>
                  (case add_cached (completed_users s) cached results of
                     (results', None) \<Rightarrow> (results', s)
                   | (results', Some e) \<Rightarrow>
                       (results', log_error (''Error loading cached results: '' @ err_str e) s))))
      else (results, s))"

text \<open>
  \<^verbatim>\<open>analyze_users\<close>, lines 270 to 347. The pending users are computed once, before the
  loop. The results file is taken to be writable.
\<close>

definition analyze_users ::
  "api \<Rightarrow> nat \<Rightarrow> string list \<Rightarrow> analyzer \<Rightarrow> (json list \<times> analyzer) option" where
  "analyze_users net fuel usernames s =
     (let pending_users = filter (\<lambda>u. u \<notin> completed_users s) usernames in
      case users_loop net fuel pending_users [] s of
        None \<Rightarrow> None
      | Some (results, s1) \<Rightarrow>
          (case load_cached pending_users results s1 of
             (results', s2) \<Rightarrow> Some (results', s2\<lparr>results_file := Content (JList results')\<rparr>)))"

section \<open>Scripted hosts and states for the examples\<close>

text \<open>A host that answers from a list and fails at network level once the list is used up.\<close>

definition script_net :: "outcome list \<Rightarrow> api" where
  "script_net script n = (if n < length script then script ! n else ConnError ''unreachable'')"

definition ok_response :: "json \<Rightarrow> outcome" where
  "ok_response data =
     Response \<lparr>status_code = 200, body_text = [], body = data, hdr_remaining = None,
               hdr_reset = None, hdr_link = []\<rparr>"

definition fresh :: "string list \<Rightarrow> analyzer" where
  "fresh orgs =
     \<lparr>organizations = orgs, time_filter = [], rate_limit_remaining = 5000,
      rate_limit_reset = 0, cache = Map.empty, completed_users = {}, now = 1000, reqs = 0,
      trace = [], results_file = Missing\<rparr>"

section \<open>Notions used in the statements\<close>

text \<open>The cache after a fetch of \<open>url\<close> that ended with \<open>r\<close>, from the cache before it.\<close>

fun cache_after ::
  "string \<Rightarrow> error + json \<Rightarrow> (string \<rightharpoonup> json) \<Rightarrow> (string \<rightharpoonup> json)" where
  "cache_after url (Inl e) c = c"
| "cache_after url (Inr v) c = c(url \<mapsto> v)"

text \<open>The checkpoints written so far, oldest first.\<close>

fun checkpoints :: "event list \<Rightarrow> string set list" where
  "checkpoints [] = []"
| "checkpoints (SaveProgress c # evs) = c # checkpoints evs"
| "checkpoints (e # evs) = checkpoints evs"

text \<open>What fetching and quota tracking leave alone: the completed users, the
  configuration, the results file and the checkpoints written.\<close>

definition config :: "analyzer \<Rightarrow> string set \<times> string list \<times> string \<times> stored \<times> string set list" where
  "config s =
     (completed_users s, organizations s, time_filter s, results_file s, checkpoints (trace s))"

text \<open>A state of the examples: nine requests left, the reset time two seconds ago.\<close>

definition past_reset :: analyzer where
  "past_reset = (fresh [])\<lparr>rate_limit_remaining := 9, rate_limit_reset := 998\<rparr>"

text \<open>A state of the examples: nine requests left, the reset time 100 seconds ahead.\<close>

definition before_reset :: analyzer where
  "before_reset = (fresh [])\<lparr>rate_limit_remaining := 9, rate_limit_reset := 1100\<rparr>"

text \<open>From \<open>s\<close> to \<open>s'\<close> the cache has only grown and \<open>config\<close> is the same.\<close>

definition keeps :: "analyzer \<Rightarrow> analyzer \<Rightarrow> bool" where
  "keeps s s' = (config s' = config s \<and> cache s \<subseteq>\<^sub>m cache s')"



text \<open>
  The state after \<open>k\<close> failed attempts at one page, each followed by its back-off sleep;
  \<open>msg i\<close> is the message of the \<open>i\<close>-th failure.
\<close>

fun retried :: "string \<Rightarrow> (nat \<Rightarrow> string) \<Rightarrow> nat \<Rightarrow> analyzer \<Rightarrow> analyzer" where
  "retried url msg 0 s = s"
| "retried url msg (Suc k) s =
     sleep (2 ^ Suc k)
       (log_error (''Network error: '' @ msg k) (requested url (retried url msg k s)))"

text \<open>A response of the examples: status 403 with the host's rate-limit message and the
  reset time \<open>t\<close>.\<close>

definition quota_exceeded :: "int \<Rightarrow> response" where
  "quota_exceeded t =
     \<lparr>status_code = 403, body_text = ''API rate limit exceeded for user'', body = JNull,
      hdr_remaining = Some 0, hdr_reset = Some t, hdr_link = []\<rparr>"

text \<open>A response of the examples: status 200, a body, and a \<^verbatim>\<open>Link\<close> header naming a next
  page.\<close>

definition next_page_response :: "json \<Rightarrow> response" where
  \<open>next_page_response data =
     \<lparr>status_code = 200, body_text = [], body = data, hdr_remaining = None,
      hdr_reset = None, hdr_link = ''<next>; rel="next"''\<rparr>\<close>

definition page_with_next :: "json \<Rightarrow> outcome" where
  "page_with_next data = Response (next_page_response data)"

text \<open>The URLs requested so far, oldest first.\<close>

fun requests_of :: "event list \<Rightarrow> string list" where
  "requests_of [] = []"
| "requests_of (Request u # evs) = u # requests_of evs"
| "requests_of (e # evs) = requests_of evs"

text \<open>
  A host of the examples: a first page \<open>[7]\<close> that names a next page, a refusal for quota
  exhaustion with the reset time ten seconds ahead, four failures at network level, and the
  page \<open>[8]\<close>. And the same host from its second answer on.
\<close>

definition resumed_host :: api where
  "resumed_host =
     script_net [page_with_next (JList [JNum 7]), Response (quota_exceeded 1010),
                 ConnError ''down'', ConnError ''down'', ConnError ''down'', ConnError ''down'',
                 ok_response (JList [JNum 8])]"

definition failing_restart :: api where
  "failing_restart =
     script_net [Response (quota_exceeded 1010), ConnError ''down'', ConnError ''down'',
                 ConnError ''down'', ConnError ''down'', ok_response (JList [JNum 8])]"

text \<open>
  The classification of a pull request in the words of the specification: its state, its
  merge timestamp (the field \<^verbatim>\<open>merged_at\<close> of its \<^verbatim>\<open>pull_request\<close> object, \<^verbatim>\<open>None\<close> when
  there is none), and the three classes.
\<close>

definition pr_state :: "json \<Rightarrow> json" where
  "pr_state pr =
     (case pr of
        JDict d \<Rightarrow> (case map_of d ''state'' of Some v \<Rightarrow> v | None \<Rightarrow> JNull)
      | _ \<Rightarrow> JNull)"

definition merge_timestamp :: "json \<Rightarrow> json" where
  "merge_timestamp pr =
     (case pr of
        JDict d \<Rightarrow>
          (case map_of d ''pull_request'' of
             Some (JDict p) \<Rightarrow> (case map_of p ''merged_at'' of Some v \<Rightarrow> v | None \<Rightarrow> JNull)
           | _ \<Rightarrow> JNull)
      | _ \<Rightarrow> JNull)"

definition spec_merged :: "json \<Rightarrow> bool" where
  "spec_merged pr = (pr_state pr = JStr ''closed'' \<and> truthy (merge_timestamp pr))"

definition spec_closed_unmerged :: "json \<Rightarrow> bool" where
  "spec_closed_unmerged pr = (pr_state pr = JStr ''closed'' \<and> \<not> truthy (merge_timestamp pr))"

definition spec_open :: "json \<Rightarrow> bool" where
  "spec_open pr = (pr_state pr = JStr ''open'')"

text \<open>A pull request of the examples, closed and merged, and one closed without a merge.\<close>

definition merged_pr :: json where
  "merged_pr =
     JDict [(''state'', JStr ''closed''),
            (''pull_request'', JDict [(''merged_at'', JStr ''2024-05-01T10:00:00Z'')]),
            (''repository_url'', JStr ''https://api.github.com/repos/acme/tool'')]"

definition rejected_pr :: json where
  "rejected_pr =
     JDict [(''state'', JStr ''closed''),
            (''pull_request'', JDict [(''merged_at'', JNull)]),
            (''repository_url'', JStr ''https://api.github.com/repos/acme/tool'')]"

definition open_pr :: json where
  "open_pr =
     JDict [(''state'', JStr ''open''),
            (''pull_request'', JDict [(''merged_at'', JNull)]),
            (''repository_url'', JStr ''https://api.github.com/repos/acme/tool'')]"

text \<open>A host of the examples: the quota endpoint answers without quota data, the first
  query is refused for quota exhaustion with a reset time in the past, and nothing answers
  afterwards.\<close>

definition exhausted_host :: api where
  "exhausted_host = script_net [ok_response JNull, Response (quota_exceeded 990)]"

text \<open>A host of the examples: every query finds nothing.\<close>

definition empty_host :: api where
  "empty_host n = ok_response (JDict [(''items'', JList [])])"

text \<open>A host of the examples: as \<open>exhausted_host\<close> for the first two requests, then two
  answers without quota data, then five queries that find nothing.\<close>

definition recovering_host :: api where
  "recovering_host =
     script_net [ok_response JNull, Response (quota_exceeded 990), ok_response JNull,
                 ok_response JNull,
                 ok_response (JDict [(''items'', JList [])]),
                 ok_response (JDict [(''items'', JList [])]),
                 ok_response (JDict [(''items'', JList [])]),
                 ok_response (JDict [(''items'', JList [])]),
                 ok_response (JDict [(''items'', JList [])])]"

text \<open>
  A computation replays when every run of it that ends with a value can be repeated, on any
  host and with any fuel, from any state whose cache holds what the cache held at the end
  of the run and whose filter and organizations are those of the run: the repetition ends
  with the same value and changes neither the cache nor \<open>config\<close>.
\<close>

definition replays ::
  "(api \<Rightarrow> nat \<Rightarrow> analyzer \<Rightarrow> ((error + 'a) \<times> analyzer) option) \<Rightarrow> bool" where
  "replays P =
     (\<forall>net fuel s y s'. P net fuel s = Some (Inr y, s') \<longrightarrow>
        keeps s s' \<and>
        (\<forall>net' fuel' t.
           cache s' \<subseteq>\<^sub>m cache t \<and> time_filter t = time_filter s
             \<and> organizations t = organizations s \<longrightarrow>
           (\<exists>t'. P net' fuel' t = Some (Inr y, t') \<and> cache t' = cache t \<and> config t' = config t)))"

text \<open>The record of a user without any contribution to the organization \<^verbatim>\<open>acme\<close>.\<close>

definition idle_record :: "string \<Rightarrow> (string \<times> json) list" where
  "idle_record user =
     [(''username'', JStr user), (''pr_total'', JNum 0), (''pr_merged'', JNum 0),
      (''pr_open'', JNum 0), (''commits'', JNum 0), (''issues_opened'', JNum 0),
      (''issues_closed'', JNum 0), (''issues_commented'', JNum 0),
      (''repos_contributed'', JNum 0), (''reviews_submitted'', JNum 0),
      (''acme_pr_total'', JNum 0), (''acme_pr_merged'', JNum 0), (''acme_pr_open'', JNum 0),
      (''acme_commits'', JNum 0), (''acme_issues_opened'', JNum 0),
      (''acme_issues_closed'', JNum 0), (''acme_issues_commented'', JNum 0),
      (''acme_repos_contributed'', JNum 0), (''acme_reviews_submitted'', JNum 0)]"

text \<open>The number that \<^verbatim>\<open>repos_contributed\<close> stands for, and the sum of a counter over the
  organizations of \<^verbatim>\<open>stats['organizations']\<close>.\<close>

definition repo_count :: "counters \<Rightarrow> nat" where
  "repo_count c = (case repos_contributed c of RepoCount n \<Rightarrow> n | RepoSet xs \<Rightarrow> length xs)"

definition org_sum :: "(counters \<Rightarrow> nat) \<Rightarrow> (string \<times> counters) list \<Rightarrow> nat" where
  "org_sum f table = sum_list (map (\<lambda>kv. f (snd kv)) table)"

text \<open>
  While an organization is analysed, the pair (overall counters, counters of the
  organization) tracks the overall counters \<open>t0\<close> from before the organization: every
  overall counter is its value in \<open>t0\<close> plus the counter of the organization, both
  repository sets are still sets, every repository of the organization is in the overall
  set under its qualified name, and the overall set has grown by no more than the set of
  the organization holds.
\<close>

definition tracks :: "string \<Rightarrow> counters \<Rightarrow> counters \<times> counters \<Rightarrow> bool" where
  "tracks org t0 c =
     (pr_total (fst c) = pr_total t0 + pr_total (snd c)
      \<and> pr_merged (fst c) = pr_merged t0 + pr_merged (snd c)
      \<and> pr_open (fst c) = pr_open t0 + pr_open (snd c)
      \<and> commits (fst c) = commits t0 + commits (snd c)
      \<and> issues_opened (fst c) = issues_opened t0 + issues_opened (snd c)
      \<and> issues_closed (fst c) = issues_closed t0 + issues_closed (snd c)
      \<and> issues_commented (fst c) = issues_commented t0 + issues_commented (snd c)
      \<and> reviews_submitted (fst c) = reviews_submitted t0 + reviews_submitted (snd c)
      \<and> (\<exists>all0 all_repos org_repos.
            repos_contributed t0 = RepoSet all0
          \<and> repos_contributed (fst c) = RepoSet all_repos
          \<and> repos_contributed (snd c) = RepoSet org_repos
          \<and> (\<forall>x \<in> set org_repos. org @ ''/'' @ x \<in> set all_repos)
          \<and> length all_repos \<le> length all0 + length org_repos))"

text \<open>The counters of an organization that later steps of its analysis assign.\<close>

definition unassigned :: "counters \<times> counters \<Rightarrow> nat \<times> nat \<times> nat" where
  "unassigned c =
     (issues_opened (snd c), reviews_submitted (snd c), issues_commented (snd c))"

text \<open>
  The statistics are consistent when every overall counter is the sum of that counter over
  the organizations, the overall repository set is no larger than the repository counts of
  the organizations together, and every organization either has not been analysed (its
  counters are as line 139 made them) or has had its repository set collapsed to a count.
\<close>

definition consistent :: "stats \<Rightarrow> bool" where
  "consistent st =
     (pr_total (overall st) = org_sum pr_total (per_org st)
      \<and> pr_merged (overall st) = org_sum pr_merged (per_org st)
      \<and> pr_open (overall st) = org_sum pr_open (per_org st)
      \<and> commits (overall st) = org_sum commits (per_org st)
      \<and> issues_opened (overall st) = org_sum issues_opened (per_org st)
      \<and> issues_closed (overall st) = org_sum issues_closed (per_org st)
      \<and> issues_commented (overall st) = org_sum issues_commented (per_org st)
      \<and> reviews_submitted (overall st) = org_sum reviews_submitted (per_org st)
      \<and> (\<exists>all_repos. repos_contributed (overall st) = RepoSet all_repos
                     \<and> length all_repos \<le> org_sum repo_count (per_org st))
      \<and> (\<forall>kv \<in> set (per_org st).
            snd kv = zero_counters \<or> (\<exists>n. repos_contributed (snd kv) = RepoCount n)))"

text \<open>
  A host of the examples, for one user and the organizations \<^verbatim>\<open>acme\<close> and \<^verbatim>\<open>beta\<close>, in the
  order of the requests: in \<^verbatim>\<open>acme\<close> a merged and a rejected pull request and a closed issue
  in one repository with four commits, and one review; in \<^verbatim>\<open>beta\<close> an open pull request
  in one repository with two commits.
\<close>

definition beta_pr :: json where
  "beta_pr =
     JDict [(''state'', JStr ''open''),
            (''pull_request'', JDict [(''merged_at'', JNull)]),
            (''repository_url'', JStr ''https://api.github.com/repos/beta/site'')]"

definition acme_issue :: json where
  "acme_issue =
     JDict [(''state'', JStr ''closed''),
            (''repository_url'', JStr ''https://api.github.com/repos/acme/tool'')]"

definition found :: "json list \<Rightarrow> outcome" where
  "found items = ok_response (JDict [(''total_count'', JNum (int (length items))),
                                     (''items'', JList items)])"

definition two_org_host :: api where
  "two_org_host =
     script_net
       [found [merged_pr, rejected_pr], found [acme_issue],
        ok_response (JList [JNull, JNull, JNull, JNull]), ok_response JNull,
        found [JDict []], found [], found [],
        found [beta_pr], found [],
        ok_response (JList [JNull, JNull]), ok_response JNull,
        found [], found [], found []]"

text \<open>
  The keys of a dictionary of counters, lines 140 to 148. A key of the record ends with a
  counter key when it is some text, an underscore and that counter key: the form of the
  keys that line 262 writes.
\<close>

definition counter_keys :: "string list" where
  "counter_keys =
     [''pr_total'', ''pr_merged'', ''pr_open'', ''commits'', ''issues_opened'',
      ''issues_closed'', ''issues_commented'', ''repos_contributed'', ''reviews_submitted'']"

definition ends_with_key :: "string \<Rightarrow> string \<Rightarrow> bool" where
  "ends_with_key t x =
     (length x < length t \<and> drop (length t - length x - 1) t = CHR ''_'' # x)"

text \<open>
  The number that the record holds under a key, if it holds a number there, and the sum of
  a counter over the organizations, read from the record under the prefixed keys of line
  262; there is no sum when one of these keys holds no number.
\<close>

definition number_at :: "(string \<times> json) list \<Rightarrow> string \<Rightarrow> int option" where
  "number_at d k = (case map_of d k of Some (JNum n) \<Rightarrow> Some n | _ \<Rightarrow> None)"

fun org_total :: "(string \<times> json) list \<Rightarrow> string list \<Rightarrow> string \<Rightarrow> int option" where
  "org_total d [] k = Some 0"
| "org_total d (org # orgs) k =
     (case number_at d (org_prefix org @ k) of
        None \<Rightarrow> None
      | Some a \<Rightarrow> (case org_total d orgs k of None \<Rightarrow> None | Some b \<Rightarrow> Some (a + b)))"

text \<open>
  In the record \<open>d\<close> the overall counter \<open>k\<close> is the sum of that counter over the
  organizations, or is at most that sum.
\<close>

definition is_sum :: "(string \<times> json) list \<Rightarrow> string list \<Rightarrow> string \<Rightarrow> bool" where
  "is_sum d orgs k = (number_at d k \<noteq> None \<and> number_at d k = org_total d orgs k)"

definition at_most_sum :: "(string \<times> json) list \<Rightarrow> string list \<Rightarrow> string \<Rightarrow> bool" where
  "at_most_sum d orgs k =
     (case number_at d k of
        None \<Rightarrow> False
      | Some n \<Rightarrow> (case org_total d orgs k of None \<Rightarrow> False | Some m \<Rightarrow> n \<le> m))"

text \<open>
  A host and a record of the examples, for the organizations \<^verbatim>\<open>a-b\<close> and \<^verbatim>\<open>a_b\<close>, which
  line 260 gives the same prefix: one open pull request in \<^verbatim>\<open>a-b\<close> and nothing else.
\<close>

definition clash_host :: api where
  "clash_host n = (if n = 0 then found [JDict [(''state'', JStr ''open'')]] else found [])"

definition clash_record :: "(string \<times> json) list" where
  "clash_record =
     [(''username'', JStr ''alice''), (''pr_total'', JNum 1), (''pr_merged'', JNum 0),
      (''pr_open'', JNum 1), (''commits'', JNum 0), (''issues_opened'', JNum 0),
      (''issues_closed'', JNum 0), (''issues_commented'', JNum 0),
      (''repos_contributed'', JNum 0), (''reviews_submitted'', JNum 0),
      (''a_b_pr_total'', JNum 0), (''a_b_pr_merged'', JNum 0), (''a_b_pr_open'', JNum 0),
      (''a_b_commits'', JNum 0), (''a_b_issues_opened'', JNum 0),
      (''a_b_issues_closed'', JNum 0), (''a_b_issues_commented'', JNum 0),
      (''a_b_repos_contributed'', JNum 0), (''a_b_reviews_submitted'', JNum 0)]"

text \<open>
  The pull requests that the query of line 157 for an organization has returned, read from
  the cache, where a fetch leaves its result: the elements of \<^verbatim>\<open>pr_data['items']\<close>, and
  none when the test of line 160 fails.
\<close>

definition authored_prs :: "string \<Rightarrow> string \<Rightarrow> analyzer \<Rightarrow> json list" where
  "authored_prs user org s =
     (case cache s (search_url ''author'' user org ''pr'' (time_filter s)) of
        None \<Rightarrow> []
      | Some pr_data \<Rightarrow>
          (case items_of pr_data of
             Inr (Some pr_items) \<Rightarrow> (case py_iter pr_items of Inr prs \<Rightarrow> prs | Inl e \<Rightarrow> [])
           | _ \<Rightarrow> []))"

text \<open>The three counters of pull requests.\<close>

definition pr_counts :: "counters \<Rightarrow> nat \<times> nat \<times> nat" where
  "pr_counts c = (pr_total c, pr_merged c, pr_open c)"

text \<open>
  Hosts, a pull request and a record of the examples: a host whose first answer holds a
  merged, a rejected and an open pull request and that finds nothing else; a closed pull
  request whose field \<^verbatim>\<open>pull_request\<close> is \<^verbatim>\<open>null\<close>; a host whose first answer holds one
  rejected pull request and that finds nothing else, and the record of the user on it.
\<close>

definition three_pr_host :: api where
  "three_pr_host n = (if n = 0 then found [merged_pr, rejected_pr, open_pr] else found [])"

definition null_pr :: json where
  "null_pr = JDict [(''state'', JStr ''closed''), (''pull_request'', JNull)]"

definition rejected_host :: api where
  "rejected_host n = (if n = 0 then found [rejected_pr] else found [])"

definition rejected_record :: "(string \<times> json) list" where
  "rejected_record =
     [(''username'', JStr ''alice''), (''pr_total'', JNum 1), (''pr_merged'', JNum 0),
      (''pr_open'', JNum 0), (''commits'', JNum 0), (''issues_opened'', JNum 0),
      (''issues_closed'', JNum 0), (''issues_commented'', JNum 0),
      (''repos_contributed'', JNum 1), (''reviews_submitted'', JNum 0),
      (''acme_pr_total'', JNum 1), (''acme_pr_merged'', JNum 0), (''acme_pr_open'', JNum 0),
      (''acme_commits'', JNum 0), (''acme_issues_opened'', JNum 0),
      (''acme_issues_closed'', JNum 0), (''acme_issues_commented'', JNum 0),
      (''acme_repos_contributed'', JNum 1), (''acme_reviews_submitted'', JNum 0)]"

section \<open>Frame properties of the basic operations\<close>

lemma emit_fields [simp]:
  "cache (emit e s) = cache s"
  "completed_users (emit e s) = completed_users s"
  "organizations (emit e s) = organizations s"
  "time_filter (emit e s) = time_filter s"
  "results_file (emit e s) = results_file s"
  "rate_limit_remaining (emit e s) = rate_limit_remaining s"
  "rate_limit_reset (emit e s) = rate_limit_reset s"
  "now (emit e s) = now s"
  "reqs (emit e s) = reqs s"
  "trace (emit e s) = trace s @ [e]"
  by (simp_all add: emit_def)

lemma sleep_fields [simp]:
  "cache (sleep w s) = cache s"
  "completed_users (sleep w s) = completed_users s"
  "organizations (sleep w s) = organizations s"
  "time_filter (sleep w s) = time_filter s"
  "results_file (sleep w s) = results_file s"
  "rate_limit_remaining (sleep w s) = rate_limit_remaining s"
  "rate_limit_reset (sleep w s) = rate_limit_reset s"
  "now (sleep w s) = now s + w"
  "reqs (sleep w s) = reqs s"
  "trace (sleep w s) = trace s @ [Sleep w]"
  by (simp_all add: sleep_def)

lemma log_error_fields [simp]:
  "cache (log_error m s) = cache s"
  "completed_users (log_error m s) = completed_users s"
  "organizations (log_error m s) = organizations s"
  "time_filter (log_error m s) = time_filter s"
  "results_file (log_error m s) = results_file s"
  "rate_limit_remaining (log_error m s) = rate_limit_remaining s"
  "rate_limit_reset (log_error m s) = rate_limit_reset s"
  "now (log_error m s) = now s"
  "reqs (log_error m s) = reqs s"
  "trace (log_error m s) = trace s @ [LogError m]"
  by (simp_all add: log_error_def)

lemma http_get_fields [simp]:
  "fst (http_get net url s) = net (reqs s)"
  "cache (snd (http_get net url s)) = cache s"
  "completed_users (snd (http_get net url s)) = completed_users s"
  "organizations (snd (http_get net url s)) = organizations s"
  "time_filter (snd (http_get net url s)) = time_filter s"
  "results_file (snd (http_get net url s)) = results_file s"
  "rate_limit_remaining (snd (http_get net url s)) = rate_limit_remaining s"
  "rate_limit_reset (snd (http_get net url s)) = rate_limit_reset s"
  "now (snd (http_get net url s)) = now s"
  "reqs (snd (http_get net url s)) = Suc (reqs s)"
  "trace (snd (http_get net url s)) = trace s @ [Request url]"
  by (simp_all add: http_get_def requested_def)

lemma note_headers_fields [simp]:
  "cache (note_headers r s) = cache s"
  "completed_users (note_headers r s) = completed_users s"
  "organizations (note_headers r s) = organizations s"
  "time_filter (note_headers r s) = time_filter s"
  "results_file (note_headers r s) = results_file s"
  "now (note_headers r s) = now s"
  "reqs (note_headers r s) = reqs s"
  "trace (note_headers r s) = trace s"
  by (simp_all add: note_headers_def Let_def split: option.splits)

lemma update_rate_limit_info_fields [simp]:
  "cache (update_rate_limit_info net s) = cache s"
  "completed_users (update_rate_limit_info net s) = completed_users s"
  "organizations (update_rate_limit_info net s) = organizations s"
  "time_filter (update_rate_limit_info net s) = time_filter s"
  "results_file (update_rate_limit_info net s) = results_file s"
  "now (update_rate_limit_info net s) = now s"
  "reqs (update_rate_limit_info net s) = Suc (reqs s)"
  by (simp_all add: update_rate_limit_info_def http_get_def requested_def Let_def
        split: outcome.splits sum.splits)

lemma wait_for_rate_limit_fields [simp]:
  "cache (wait_for_rate_limit net s) = cache s"
  "completed_users (wait_for_rate_limit net s) = completed_users s"
  "organizations (wait_for_rate_limit net s) = organizations s"
  "time_filter (wait_for_rate_limit net s) = time_filter s"
  "results_file (wait_for_rate_limit net s) = results_file s"
  by (simp_all add: wait_for_rate_limit_def Let_def)


lemma check_page_cache:
  "check_page net r results s = Raise e s1 \<Longrightarrow> cache s1 = cache s"
  "check_page net r results s = Break res s1 \<Longrightarrow> cache s1 = cache s"
  "check_page net r results s = Continue nu res s1 \<Longrightarrow> cache s1 = cache s"
  by (auto simp: check_page_def split: if_splits prod.splits sum.splits bool.splits)

lemma check_page_neq [simp]:
  "check_page net r results s \<noteq> Restart s1"
  "check_page net r results s \<noteq> Failed msg s1"
  by (auto simp: check_page_def split: if_splits prod.splits sum.splits bool.splits)

section \<open>The cache\<close>

lemma request_page_cache:
  "request_page net nu results s = Raise e s1 \<Longrightarrow> cache s1 = cache s"
  "request_page net nu results s = Break res s1 \<Longrightarrow> cache s1 = cache s"
  "request_page net nu results s = Continue nu' res s1 \<Longrightarrow> cache s1 = cache s"
  "request_page net nu results s = Restart s1 \<Longrightarrow> cache s1 = cache s"
  "request_page net nu results s = Failed msg s1 \<Longrightarrow> cache s1 = cache s"
  by (auto simp: request_page_def http_get_def requested_def Let_def dest: check_page_cache
        split: if_splits prod.splits outcome.splits)

lemma on_network_error_cache:
  "on_network_error url rc msg s = Inl (e, s1) \<Longrightarrow> cache s1 = cache s"
  "on_network_error url rc msg s = Inr (rc', s1) \<Longrightarrow> cache s1 = cache s"
  by (auto simp: on_network_error_def Let_def split: if_splits)

lemma paginated_request_from_fetch:
  assumes "\<And>nu res rc s r s'. fetch_pages net n url nu res rc s = Some (r, s') \<Longrightarrow> cache s' = cache_after url r (cache s)"
    and "paginated_request net n url s = Some (r, s')"
  shows "cache s' = cache_after url r (cache s)"
proof (cases "cache s url")
  case None
  with assms(2) have "fetch_pages net n url url JNull 0 (wait_for_rate_limit net s) = Some (r, s')"
    by simp
  from assms(1)[OF this] show ?thesis by simp
next
  case (Some v)
  with assms(2) have "r = Inr v" "s' = s" by auto
  with Some show ?thesis by (simp add: map_upd_triv)
qed

lemma fetch_pages_cache:
  "fetch_pages net fuel url nu res rc s = Some (r, s') \<Longrightarrow> cache s' = cache_after url r (cache s)"
proof (induction fuel arbitrary: nu res rc s r s')
  case 0
  then show ?case by simp
next
  case (Suc n)
  note IH = Suc.IH
  note run = Suc.prems
  have P: "\<And>s r s'. paginated_request net n url s = Some (r, s') \<Longrightarrow> cache s' = cache_after url r (cache s)"
    using paginated_request_from_fetch [of net n url] IH by blast
  show ?case
  proof (cases "nu = []")
    case True
    with run show ?thesis by auto
  next
    case False
    show ?thesis
    proof (cases "request_page net nu res s")
      case (Raise e s1)
      with run False request_page_cache(1)[OF Raise] show ?thesis
        by auto
    next
      case (Break v s1)
      with run False request_page_cache(2)[OF Break] show ?thesis
        by auto
    next
      case (Continue nu' res' s1)
      with run False have "fetch_pages net n url nu' res' 0 s1 = Some (r, s')" by simp
      from IH[OF this] request_page_cache(3)[OF Continue] show ?thesis
        by simp
    next
      case (Failed msg s1)
      note c1 = request_page_cache(5)[OF Failed]
      show ?thesis
      proof (cases "on_network_error url rc msg s1")
        case (Inl p)
        then obtain e s2 where p: "on_network_error url rc msg s1 = Inl (e, s2)"
          by (cases p) auto
        with run False Failed on_network_error_cache(1)[OF p] c1 show ?thesis
          by auto
      next
        case (Inr p)
        then obtain rc' s2 where p: "on_network_error url rc msg s1 = Inr (rc', s2)"
          by (cases p) auto
        with run False Failed have "fetch_pages net n url nu res rc' s2 = Some (r, s')" by simp
        from IH[OF this] on_network_error_cache(2)[OF p] c1 show ?thesis
          by simp
      qed
    next
      case (Restart s1)
      note c1 = request_page_cache(4)[OF Restart]
      show ?thesis
      proof (cases "paginated_request net n url s1")
        case None
        with run False Restart show ?thesis by simp
      next
        case (Some q)
        obtain r1 s2 where q: "q = (r1, s2)" by (cases q)
        from P Some q have e1: "cache s2 = cache_after url r1 (cache s1)" by simp
        show ?thesis
        proof (cases "\<exists>msg. r1 = Inl (NetworkError msg)")
          case True
          then obtain msg where r1: "r1 = Inl (NetworkError msg)" by blast
          from e1 r1 have c2: "cache s2 = cache s1" by simp
          show ?thesis
          proof (cases "on_network_error url rc msg s2")
            case (Inl p)
            then obtain e s3 where p: "on_network_error url rc msg s2 = Inl (e, s3)"
              by (cases p) auto
            with run False Restart Some q r1 on_network_error_cache(1)[OF p] c1 c2 show ?thesis
              by auto
          next
            case (Inr p)
            then obtain rc' s3 where p: "on_network_error url rc msg s2 = Inr (rc', s3)"
              by (cases p) auto
            with run False Restart Some q r1
            have "fetch_pages net n url nu res rc' s3 = Some (r, s')" by simp
            from IH[OF this] on_network_error_cache(2)[OF p] c1 c2 show ?thesis
              by simp
          qed
        next
          case False
          with run \<open>nu \<noteq> []\<close> Restart Some q have "r = r1" "s' = s2"
            by (auto split: sum.splits error.splits)
          with e1 c1 show ?thesis by simp
        qed
      qed
    qed
  qed
qed

section \<open>What the quota operations leave alone\<close>

lemma checkpoints_append [simp]: "checkpoints (xs @ ys) = checkpoints xs @ checkpoints ys"
  by (induction xs rule: checkpoints.induct) simp_all

lemma config_basic [simp]:
  "config (emit (Request u) s) = config s"
  "config (emit (Sleep w) s) = config s"
  "config (emit (LogError m) s) = config s"
  "config (log_error m s) = config s"
  "config (sleep w s) = config s"
  "config (snd (http_get net url s)) = config s"
  "config (note_headers r s) = config s"
  "config (s\<lparr>cache := c\<rparr>) = config s"
  "config (s\<lparr>rate_limit_remaining := n\<rparr>) = config s"
  "config (s\<lparr>rate_limit_reset := n\<rparr>) = config s"
  by (simp_all add: config_def log_error_def sleep_def emit_def http_get_def requested_def)

lemma config_update_rate_limit_info [simp]:
  "config (update_rate_limit_info net s) = config s"
  by (cases "net (reqs s)")
     (simp_all add: update_rate_limit_info_def http_get_def requested_def Let_def split: sum.splits,
      simp_all add: config_def emit_def log_error_def)

lemma config_wait_for_rate_limit [simp]:
  "config (wait_for_rate_limit net s) = config s"
  by (simp add: wait_for_rate_limit_def Let_def)

lemma update_rate_limit_info_trace:
  "\<exists>evs. trace (update_rate_limit_info net s) = trace s @ Request (base_url @ ''/rate_limit'') # evs"
  by (cases "net (reqs s)")
     (auto simp: update_rate_limit_info_def http_get_def requested_def Let_def emit_def log_error_def split: sum.splits)

section \<open>What a fetch leaves alone\<close>

lemma check_page_config:
  "check_page net r results s = Raise e s1 \<Longrightarrow> config s1 = config s"
  "check_page net r results s = Break res s1 \<Longrightarrow> config s1 = config s"
  "check_page net r results s = Continue nu res s1 \<Longrightarrow> config s1 = config s"
  by (auto simp: check_page_def split: if_splits prod.splits sum.splits bool.splits)

lemma request_page_config:
  "request_page net nu results s = Raise e s1 \<Longrightarrow> config s1 = config s"
  "request_page net nu results s = Break res s1 \<Longrightarrow> config s1 = config s"
  "request_page net nu results s = Continue nu' res s1 \<Longrightarrow> config s1 = config s"
  "request_page net nu results s = Restart s1 \<Longrightarrow> config s1 = config s"
  "request_page net nu results s = Failed msg s1 \<Longrightarrow> config s1 = config s"
proof -
  have h: "config (snd (http_get net nu s)) = config s" by simp
  show "request_page net nu results s = Raise e s1 \<Longrightarrow> config s1 = config s"
    using h by (cases "http_get net nu s"; cases "fst (http_get net nu s)")
      (auto simp: request_page_def Let_def simp del: http_get_fields dest!: check_page_config split: if_splits)
  show "request_page net nu results s = Break res s1 \<Longrightarrow> config s1 = config s"
    using h by (cases "http_get net nu s"; cases "fst (http_get net nu s)")
      (auto simp: request_page_def Let_def simp del: http_get_fields dest!: check_page_config split: if_splits)
  show "request_page net nu results s = Continue nu' res s1 \<Longrightarrow> config s1 = config s"
    using h by (cases "http_get net nu s"; cases "fst (http_get net nu s)")
      (auto simp: request_page_def Let_def simp del: http_get_fields dest!: check_page_config split: if_splits)
  show "request_page net nu results s = Restart s1 \<Longrightarrow> config s1 = config s"
    using h by (cases "http_get net nu s"; cases "fst (http_get net nu s)")
      (auto simp: request_page_def Let_def simp del: http_get_fields dest!: check_page_config split: if_splits)
  show "request_page net nu results s = Failed msg s1 \<Longrightarrow> config s1 = config s"
    using h by (cases "http_get net nu s"; cases "fst (http_get net nu s)")
      (auto simp: request_page_def Let_def simp del: http_get_fields dest!: check_page_config split: if_splits)
qed

lemma on_network_error_config:
  "on_network_error url rc msg s = Inl (e, s1) \<Longrightarrow> config s1 = config s"
  "on_network_error url rc msg s = Inr (rc', s1) \<Longrightarrow> config s1 = config s"
  by (auto simp: on_network_error_def Let_def split: if_splits)


lemma paginated_request_config_from_fetch:
  assumes "\<And>nu res rc s r s'. fetch_pages net n url nu res rc s = Some (r, s') \<Longrightarrow> config s' = config s"
    and "paginated_request net n url s = Some (r, s')"
  shows "config s' = config s"
proof (cases "cache s url")
  case None
  with assms(2) have "fetch_pages net n url url JNull 0 (wait_for_rate_limit net s) = Some (r, s')"
    by simp
  from assms(1)[OF this] show ?thesis by simp
next
  case (Some v)
  with assms(2) show ?thesis by auto
qed

lemma fetch_pages_config:
  "fetch_pages net fuel url nu res rc s = Some (r, s') \<Longrightarrow> config s' = config s"
proof (induction fuel arbitrary: nu res rc s r s')
  case 0
  then show ?case by simp
next
  case (Suc n)
  note IH = Suc.IH
  note run = Suc.prems
  have P: "\<And>s r s'. paginated_request net n url s = Some (r, s') \<Longrightarrow> config s' = config s"
    using paginated_request_config_from_fetch [of net n url] IH by blast
  show ?case
  proof (cases "nu = []")
    case True
    with run show ?thesis by auto
  next
    case False
    show ?thesis
    proof (cases "request_page net nu res s")
      case (Raise e s1)
      with run False request_page_config(1)[OF Raise] show ?thesis by auto
    next
      case (Break v s1)
      with run False request_page_config(2)[OF Break] show ?thesis by auto
    next
      case (Continue nu' res' s1)
      with run False have "fetch_pages net n url nu' res' 0 s1 = Some (r, s')" by simp
      from IH[OF this] request_page_config(3)[OF Continue] show ?thesis by simp
    next
      case (Failed msg s1)
      note c1 = request_page_config(5)[OF Failed]
      show ?thesis
      proof (cases "on_network_error url rc msg s1")
        case (Inl p)
        then obtain e s2 where p: "on_network_error url rc msg s1 = Inl (e, s2)"
          by (cases p) auto
        with run False Failed on_network_error_config(1)[OF p] c1 show ?thesis by auto
      next
        case (Inr p)
        then obtain rc' s2 where p: "on_network_error url rc msg s1 = Inr (rc', s2)"
          by (cases p) auto
        with run False Failed have "fetch_pages net n url nu res rc' s2 = Some (r, s')" by simp
        from IH[OF this] on_network_error_config(2)[OF p] c1 show ?thesis by simp
      qed
    next
      case (Restart s1)
      note c1 = request_page_config(4)[OF Restart]
      show ?thesis
      proof (cases "paginated_request net n url s1")
        case None
        with run False Restart show ?thesis by simp
      next
        case (Some q)
        obtain r1 s2 where q: "q = (r1, s2)" by (cases q)
        from P Some q have c2: "config s2 = config s1" by simp
        show ?thesis
        proof (cases "\<exists>msg. r1 = Inl (NetworkError msg)")
          case True
          then obtain msg where r1: "r1 = Inl (NetworkError msg)" by blast
          show ?thesis
          proof (cases "on_network_error url rc msg s2")
            case (Inl p)
            then obtain e s3 where p: "on_network_error url rc msg s2 = Inl (e, s3)"
              by (cases p) auto
            with run False Restart Some q r1 on_network_error_config(1)[OF p] c1 c2 show ?thesis
              by auto
          next
            case (Inr p)
            then obtain rc' s3 where p: "on_network_error url rc msg s2 = Inr (rc', s3)"
              by (cases p) auto
            with run False Restart Some q r1
            have "fetch_pages net n url nu res rc' s3 = Some (r, s')" by simp
            from IH[OF this] on_network_error_config(2)[OF p] c1 c2 show ?thesis by simp
          qed
        next
          case False
          with run \<open>nu \<noteq> []\<close> Restart Some q have "r = r1" "s' = s2"
            by (auto split: sum.splits error.splits)
          with c2 c1 show ?thesis by simp
        qed
      qed
    qed
  qed
qed

lemma paginated_request_config:
  "paginated_request net fuel url s = Some (r, s') \<Longrightarrow> config s' = config s"
  using paginated_request_config_from_fetch [of net fuel url s r s'] fetch_pages_config
  by blast

lemma paginated_request_cache:
  "paginated_request net fuel url s = Some (r, s') \<Longrightarrow> cache s' = cache_after url r (cache s)"
  using paginated_request_from_fetch [of net fuel url s r s'] fetch_pages_cache
  by blast

lemma paginated_request_grows:
  assumes "paginated_request net fuel url s = Some (r, s')"
  shows "cache s \<subseteq>\<^sub>m cache s'"
proof (cases "cache s url")
  case None
  with paginated_request_cache [OF assms] show ?thesis
    by (cases r) (auto simp: map_le_def)
next
  case (Some v)
  with assms show ?thesis by auto
qed

lemma paginated_request_hit:
  "cache s url = Some v \<Longrightarrow> paginated_request net fuel url s = Some (Inr v, s)"
  by simp

declare paginated_request.simps [simp del]

section \<open>What the analysis of a user leaves alone\<close>

lemma keeps_refl [simp]: "keeps s s"
  by (simp add: keeps_def)

lemma keeps_trans: "keeps s s1 \<Longrightarrow> keeps s1 s2 \<Longrightarrow> keeps s s2"
  by (auto simp: keeps_def intro: map_le_trans)

lemma keeps_quota [simp]:
  "keeps s (update_rate_limit_info net s)"
  "keeps s (wait_for_rate_limit net s)"
  "keeps s (wait_for_rate_limit net (update_rate_limit_info net s))"
  by (simp_all add: keeps_def)

lemma keeps_log_error [simp]: "keeps s (log_error m s)"
  by (simp add: keeps_def)

lemma paginated_request_keeps:
  "paginated_request net fuel url s = Some (r, s') \<Longrightarrow> keeps s s'"
  unfolding keeps_def using paginated_request_config paginated_request_grows by blast

lemma and_then_keeps:
  assumes "and_then m f = Some (r, s')"
    and "\<And>r1 s1. m = Some (r1, s1) \<Longrightarrow> keeps s s1"
    and "\<And>x s1. f x s1 = Some (r, s') \<Longrightarrow> keeps s1 s'"
  shows "keeps s s'"
proof (cases m)
  case None
  with assms(1) show ?thesis by (simp add: and_then_def)
next
  case (Some p)
  obtain r1 s1 where p: "p = (r1, s1)" by (cases p)
  from assms(2) Some p have k: "keeps s s1" by simp
  show ?thesis
  proof (cases r1)
    case (Inl e)
    with assms(1) Some p k show ?thesis by (simp add: and_then_def)
  next
    case (Inr x)
    with assms(1) Some p have "f x s1 = Some (r, s')" by (simp add: and_then_def)
    from keeps_trans [OF k assms(3) [OF this]] show ?thesis .
  qed
qed

lemma lift_keeps: "lift m s = Some (r, s') \<Longrightarrow> keeps s s'"
  by (auto simp: lift_def)

lemma count_prs_keeps:
  "count_prs net fuel user org c s = Some (r, s') \<Longrightarrow> keeps s s'"
  unfolding count_prs_def
  by (erule and_then_keeps) (auto dest: paginated_request_keeps lift_keeps)

lemma count_issues_keeps:
  "count_issues net fuel user org c s = Some (r, s') \<Longrightarrow> keeps s s'"
  unfolding count_issues_def
  by (erule and_then_keeps) (auto dest: paginated_request_keeps lift_keeps)

lemma count_reviews_keeps:
  "count_reviews net fuel user org c s = Some (r, s') \<Longrightarrow> keeps s s'"
  unfolding count_reviews_def
  by (erule and_then_keeps) (auto dest: paginated_request_keeps lift_keeps)

lemma count_comments_keeps:
  assumes "count_comments net fuel user org c s = Some (r, s')"
  shows "keeps s s'"
  using assms unfolding count_comments_def
proof (rule and_then_keeps)
  fix r1 s1
  assume "paginated_request net fuel (search_url ''commenter'' user org ''issue'' (time_filter s)) s = Some (r1, s1)"
  then show "keeps s s1" by (rule paginated_request_keeps)
next
  fix x s1
  assume "and_then
            (paginated_request net fuel (search_url ''commenter'' user org ''pr'' (time_filter s1))
               (wait_for_rate_limit net s1))
            (\<lambda>comments_data_prs. lift
               (then_do (comment_count x) (\<lambda>a.
                  then_do (comment_count comments_data_prs) (\<lambda>b.
                    Inr ((fst c)\<lparr>issues_commented := issues_commented (fst c) + (a + b)\<rparr>,
                         (snd c)\<lparr>issues_commented := a + b\<rparr>))))) = Some (r, s')"
  then have "keeps (wait_for_rate_limit net s1) s'"
    by (rule and_then_keeps) (auto dest: paginated_request_keeps lift_keeps)
  with keeps_quota(2) show "keeps s1 s'" by (rule keeps_trans)
qed

lemma count_batch_keeps:
  "count_batch net fuel user org repos c s = Some (r, s') \<Longrightarrow> keeps s s'"
proof (induction repos arbitrary: c s)
  case Nil
  then show ?case by simp
next
  case (Cons repo_name repos)
  from Cons.prems show ?case
    unfolding count_batch.simps
    by (rule and_then_keeps) (auto dest: paginated_request_keeps Cons.IH)
qed

lemma count_commits_keeps:
  "count_commits net fuel user org repo_list c s = Some (r, s') \<Longrightarrow> keeps s s'"
proof (induction net fuel user org repo_list c s rule: count_commits.induct)
  case (1 net fuel user org repo_list c s)
  show ?case
  proof (cases "repo_list = []")
    case True
    with "1.prems" show ?thesis by simp
  next
    case False
    with "1.prems" have run:
      "and_then (count_batch net fuel user org (take 3 repo_list) c s)
          (\<lambda>c1 s1. count_commits net fuel user org (drop 3 repo_list) c1
               (wait_for_rate_limit net (update_rate_limit_info net s1))) = Some (r, s')"
      by simp
    then show ?thesis
    proof (rule and_then_keeps)
      fix r1 s1 assume "count_batch net fuel user org (take 3 repo_list) c s = Some (r1, s1)"
      then show "keeps s s1" by (rule count_batch_keeps)
    next
      fix x s1
      assume "count_commits net fuel user org (drop 3 repo_list) x
               (wait_for_rate_limit net (update_rate_limit_info net s1)) = Some (r, s')"
      from "1.IH" [OF False this] keeps_quota(3) show "keeps s1 s'"
        by (rule keeps_trans [rotated])
    qed
  qed
qed

lemma analyze_org_keeps:
  assumes "analyze_org net fuel user org c s = Some (r, s')"
  shows "keeps s s'"
  using assms unfolding analyze_org_def
  apply (rule and_then_keeps)
   apply (erule count_prs_keeps)
  apply (erule and_then_keeps)
   apply (erule count_issues_keeps)
  apply (erule and_then_keeps)
   apply (erule lift_keeps)
  apply (erule and_then_keeps)
   apply (erule count_commits_keeps)
  apply (erule and_then_keeps)
   apply (erule count_reviews_keeps)
  apply (erule and_then_keeps)
   apply (erule count_comments_keeps)
  apply (erule lift_keeps)
  done

lemma analyze_orgs_keeps:
  "analyze_orgs net fuel orgs st s = Some (r, s') \<Longrightarrow> keeps s s'"
proof (induction orgs arbitrary: st s)
  case Nil
  then show ?case by simp
next
  case (Cons org orgs)
  show ?case
  proof (cases "map_of (per_org st) org")
    case None
    with Cons.prems show ?thesis by simp
  next
    case (Some org_stats)
    with Cons.prems have
      "and_then (analyze_org net fuel (username st) org (overall st, org_stats) s)
         (\<lambda>c s1. analyze_orgs net fuel orgs
                 (st\<lparr>overall := fst c, per_org := dict_set (per_org st) org (snd c)\<rparr>) s1)
       = Some (r, s')" by simp
    then show ?thesis
      by (rule and_then_keeps) (auto dest: analyze_org_keeps Cons.IH)
  qed
qed

lemma collect_stats_keeps:
  assumes "collect_stats net fuel user s = Some (r, s')"
  shows "keeps s s'"
proof (cases "analyze_orgs net fuel (organizations s) (initial_stats user (organizations s)) s")
  case None
  with assms show ?thesis by (simp add: collect_stats_def)
next
  case (Some p)
  obtain r1 s1 where p: "p = (r1, s1)" by (cases p)
  from analyze_orgs_keeps Some p have k: "keeps s s1" by blast
  show ?thesis
  proof (cases r1)
    case (Inl e)
    with assms Some p have "s' = log_error (''Error fetching stats for '' @ user @ '': '' @ err_str e) s1"
      by (simp add: collect_stats_def)
    with k keeps_log_error show ?thesis by (auto intro: keeps_trans)
  next
    case (Inr st)
    with assms Some p have "s' = s1"
      by (auto simp: collect_stats_def split: sum.splits)
    with k show ?thesis by simp
  qed
qed

lemma get_user_stats_keeps:
  "get_user_stats net fuel user s = Some (r, s') \<Longrightarrow> keeps s s'"
  unfolding get_user_stats_def
  by (erule and_then_keeps) (auto dest: collect_stats_keeps lift_keeps)

lemma cache_save_progress [simp]: "cache (save_progress s) = cache s"
  by (simp add: save_progress_def)

lemma analyze_user_grows:
  assumes "analyze_user net fuel user results s = Some (results', s')"
  shows "cache s \<subseteq>\<^sub>m cache s'"
proof -
  let ?s0 = "wait_for_rate_limit net (update_rate_limit_info net s)"
  show ?thesis
  proof (cases "get_user_stats net fuel user ?s0")
    case None
    with assms show ?thesis by (simp add: analyze_user_def)
  next
    case (Some p)
    obtain r1 s1 where p: "p = (r1, s1)" by (cases p)
    from get_user_stats_keeps Some p have "keeps ?s0 s1" by blast
    then have g1: "cache s \<subseteq>\<^sub>m cache s1" by (simp add: keeps_def)
    show ?thesis
    proof (cases r1)
      case (Inr user_stats)
      with assms Some p g1 show ?thesis
        by (auto simp: analyze_user_def record_success_def)
    next
      case (Inl e)
      let ?s2 = "log_error (''Error analyzing '' @ user @ '': '' @ err_str e) s1"
      let ?s3 = "wait_for_rate_limit net (update_rate_limit_info net ?s2)"
      show ?thesis
      proof (cases "contains ''API rate limit exceeded'' (err_str e)")
        case False
        with assms Some p Inl g1 show ?thesis
          by (auto simp: analyze_user_def Let_def)
      next
        case True
        show ?thesis
        proof (cases "get_user_stats net fuel user ?s3")
          case None
          with assms Some p Inl True show ?thesis by (simp add: analyze_user_def Let_def)
        next
          case (Some q)
          obtain r2 s4 where q: "q = (r2, s4)" by (cases q)
          from get_user_stats_keeps Some q have "keeps ?s3 s4" by blast
          then have "cache s1 \<subseteq>\<^sub>m cache s4" by (simp add: keeps_def)
          with g1 have g2: "cache s \<subseteq>\<^sub>m cache s4" by (rule map_le_trans)
          from assms \<open>get_user_stats net fuel user ?s0 = Some p\<close> p Inl True Some q g2
          show ?thesis
            by (cases r2) (auto simp: analyze_user_def Let_def record_success_def)
        qed
      qed
    qed
  qed
qed

lemma users_loop_grows:
  "users_loop net fuel pending results s = Some (results', s') \<Longrightarrow> cache s \<subseteq>\<^sub>m cache s'"
proof (induction pending arbitrary: results s)
  case Nil
  then show ?case by simp
next
  case (Cons user pending)
  then show ?case
    by (auto split: option.splits dest!: analyze_user_grows intro: map_le_trans)
qed




section \<open>Evaluation of the examples\<close>

lemmas eval_defs = paginated_request.simps fresh_def script_net_def ok_response_def
  wait_for_rate_limit_def request_page_def http_get_def requested_def note_headers_def
  check_page_def init_results_def combine_def emit_def Let_def rel_next_def
  numeral_2_eq_2 numeral_3_eq_3

section \<open>Network failures\<close>

lemma requested_fields [simp]:
  "cache (requested url s) = cache s"
  "completed_users (requested url s) = completed_users s"
  "organizations (requested url s) = organizations s"
  "time_filter (requested url s) = time_filter s"
  "results_file (requested url s) = results_file s"
  "rate_limit_remaining (requested url s) = rate_limit_remaining s"
  "rate_limit_reset (requested url s) = rate_limit_reset s"
  "now (requested url s) = now s"
  "reqs (requested url s) = Suc (reqs s)"
  "trace (requested url s) = trace s @ [Request url]"
  by (simp_all add: requested_def)

lemma request_page_failed:
  "net (reqs s) = ConnError m \<Longrightarrow> request_page net next_url results s = Failed m (requested next_url s)"
  by (simp add: request_page_def http_get_def)

lemma retry_step:
  assumes "next_url \<noteq> []" and "net (reqs s) = ConnError m" and "retry_count < 3"
  shows "fetch_pages net (Suc fuel) url next_url results retry_count s =
         fetch_pages net fuel url next_url results (Suc retry_count)
           (sleep (2 ^ Suc retry_count)
              (log_error (''Network error: '' @ m) (requested next_url s)))"
  using assms by (simp add: request_page_failed on_network_error_def Let_def)

lemma give_up_step:
  assumes "next_url \<noteq> []" and "net (reqs s) = ConnError m" and "\<not> retry_count < 3"
  shows "fetch_pages net (Suc fuel) url next_url results retry_count s =
         Some (Inl (NetworkError m),
               log_error (''Max retries exceeded for '' @ url)
                 (log_error (''Network error: '' @ m) (requested next_url s)))"
  using assms by (simp add: request_page_failed on_network_error_def Let_def)

lemma retried_reqs [simp]: "reqs (retried url msg k s) = reqs s + k"
  by (induction k) simp_all

lemma retried_now: "now (retried url msg 3 s) = now s + 14"
  by (simp add: numeral_3_eq_3)

lemma retried_run:
  assumes "next_url \<noteq> []" and "k \<le> 3" and "\<And>i. i < k \<Longrightarrow> net (reqs s + i) = ConnError (msg i)"
  shows "fetch_pages net (k + fuel) url next_url results 0 s =
         fetch_pages net fuel url next_url results k (retried next_url msg k s)"
  using assms(2,3)
proof (induction k arbitrary: fuel)
  case 0
  show ?case by simp
next
  case (Suc k)
  from Suc.prems have k: "k < 3" and f: "net (reqs (retried next_url msg k s)) = ConnError (msg k)"
    by simp_all
  have "fetch_pages net (Suc k + fuel) url next_url results 0 s =
        fetch_pages net (k + Suc fuel) url next_url results 0 s" by simp
  also have "\<dots> = fetch_pages net (Suc fuel) url next_url results k (retried next_url msg k s)"
    using Suc.prems by (intro Suc.IH) simp_all
  also have "\<dots> = fetch_pages net fuel url next_url results (Suc k) (retried next_url msg (Suc k) s)"
    using retry_step [of next_url net "retried next_url msg k s" "msg k" k fuel url results]
      assms(1) f k by simp
  finally show ?case .
qed

section \<open>Quota exhaustion\<close>

lemma request_page_quota:
  assumes "net (reqs s) = Response r" and "status_code r = 403"
    and "contains ''rate limit exceeded'' (lower (body_text r))"
  shows "request_page net next_url results s =
         (if 0 < rate_limit_reset (note_headers r (requested next_url s))
                 - now (note_headers r (requested next_url s)) + 5
          then Restart (sleep (rate_limit_reset (note_headers r (requested next_url s))
                                 - now (note_headers r (requested next_url s)) + 5)
                          (note_headers r (requested next_url s)))
          else Raise (RequestFailed 403 (body_text r))
                 (update_rate_limit_info net (note_headers r (requested next_url s))))"
  using assms by (simp add: request_page_def http_get_def Let_def check_page_def)

lemma quota_phrase: "contains ''rate limit exceeded'' (lower (body_text (quota_exceeded t)))"
  by (simp add: quota_exceeded_def lower_def lower_char_def)

lemmas run_defs = resumed_host_def failing_restart_def page_with_next_def
  next_page_response_def quota_exceeded_def lower_def lower_char_def on_network_error_def
  sleep_def log_error_def eval_nat_numeral

section \<open>Pages of the other shape\<close>

lemma combine_list_dict:
  "JStr ''items'' \<notin> set acc \<Longrightarrow> combine (JList acc) (JDict d) = Inr (JList acc)"
  by (simp add: combine_def)

lemma combine_dict_list:
  "JStr ''items'' \<notin> set xs \<Longrightarrow> ''items'' \<in> fst ` set d \<Longrightarrow>
     combine (JDict d) (JList xs) = Inr (JDict d)"
  by (simp add: combine_def)

lemma request_page_ok:
  assumes "net (reqs s) = Response r" and "status_code r = 200"
  shows "request_page net next_url results s =
         check_page net r results (note_headers r (requested next_url s))"
  using assms by (simp add: request_page_def http_get_def Let_def)

section \<open>Classification of pull requests\<close>

lemma then_do_Inr [simp]: "then_do (Inr x) f = f x"
  by (simp add: then_do_def)

lemma then_do_Inl [simp]: "then_do (Inl e) f = Inl e"
  by (simp add: then_do_def)

lemma then_do_eq_Inr:
  "then_do m f = Inr y \<longleftrightarrow> (\<exists>x. m = Inr x \<and> f x = Inr y)"
  by (cases m) simp_all

lemma add_repo_counts:
  assumes "add_repo org item c = Inr c'"
  shows "pr_total (fst c') = pr_total (fst c)" "pr_total (snd c') = pr_total (snd c)"
    "pr_merged (fst c') = pr_merged (fst c)" "pr_merged (snd c') = pr_merged (snd c)"
    "pr_open (fst c') = pr_open (fst c)" "pr_open (snd c') = pr_open (snd c)"
    "commits (fst c') = commits (fst c)" "commits (snd c') = commits (snd c)"
    "issues_opened (fst c') = issues_opened (fst c)" "issues_opened (snd c') = issues_opened (snd c)"
    "issues_closed (fst c') = issues_closed (fst c)" "issues_closed (snd c') = issues_closed (snd c)"
    "issues_commented (fst c') = issues_commented (fst c)"
    "issues_commented (snd c') = issues_commented (snd c)"
    "reviews_submitted (fst c') = reviews_submitted (fst c)"
    "reviews_submitted (snd c') = reviews_submitted (snd c)"
  using assms
  by (auto simp: add_repo_def then_do_eq_Inr Let_def split: if_splits json.splits repos.splits)

lemma classify_pr_spec:
  assumes "classify_pr pr c = Inr c'"
  shows "c' = (if spec_open pr then
                 ((fst c)\<lparr>pr_open := pr_open (fst c) + 1\<rparr>, (snd c)\<lparr>pr_open := pr_open (snd c) + 1\<rparr>)
               else if spec_merged pr then
                 ((fst c)\<lparr>pr_merged := pr_merged (fst c) + 1\<rparr>,
                  (snd c)\<lparr>pr_merged := pr_merged (snd c) + 1\<rparr>)
               else c)"
proof (cases pr)
  case (JDict d)
  show ?thesis
  proof (cases "map_of d ''pull_request''")
    case None
    with assms JDict show ?thesis
      by (auto simp: classify_pr_def merged_at_def spec_open_def spec_merged_def pr_state_def
            merge_timestamp_def split: if_splits option.splits)
  next
    case (Some p)
    with assms JDict show ?thesis
      by (cases p)
         (auto simp: classify_pr_def merged_at_def spec_open_def spec_merged_def pr_state_def
            merge_timestamp_def split: if_splits option.splits)
  qed
qed (use assms in \<open>simp_all add: classify_pr_def\<close>)

section \<open>The loop over the users\<close>

lemma config_eqD:
  assumes "config s' = config s"
  shows "completed_users s' = completed_users s" "organizations s' = organizations s"
    "time_filter s' = time_filter s" "results_file s' = results_file s"
    "checkpoints (trace s') = checkpoints (trace s)"
  using assms by (simp_all add: config_def)

lemma get_user_stats_config:
  "get_user_stats net fuel user s = Some (r, s') \<Longrightarrow> config s' = config s"
  using get_user_stats_keeps by (auto simp: keeps_def)

lemma save_progress_fields [simp]:
  "completed_users (save_progress s) = completed_users s"
  "checkpoints (trace (save_progress s)) = checkpoints (trace s) @ [completed_users s]"
  "reqs (save_progress s) = reqs s"
  by (simp_all add: save_progress_def emit_def)

lemma quota_steps_config [simp]:
  "config (wait_for_rate_limit net (update_rate_limit_info net s)) = config s"
  by simp

lemma map_of_dict_set:
  "map_of (dict_set d k v) k' = (if k' = k then Some v else map_of d k')"
  by (induction d) auto

lemma map_of_foldl_dict_set:
  "map_of (foldl (\<lambda>d org. dict_set d org z) d orgs) k =
     (if k \<in> set orgs then Some z else map_of d k)"
  by (induction orgs arbitrary: d) (auto simp: map_of_dict_set)

lemma and_then_Inl: "m = Some (Inl e, s) \<Longrightarrow> and_then m f = Some (Inl e, s)"
  by (simp add: and_then_def)

lemma first_fetch_fails:
  assumes "organizations s = org # orgs"
    and "paginated_request net fuel (search_url ''author'' user org ''pr'' (time_filter s)) s =
           Some (Inl e, s1)"
  shows "get_user_stats net fuel user s =
           Some (Inl e, log_error (''Error fetching stats for '' @ user @ '': '' @ err_str e) s1)"
proof -
  have "count_prs net fuel user org (zero_counters, zero_counters) s = Some (Inl e, s1)"
    using assms(2) by (simp add: count_prs_def and_then_Inl)
  then have "analyze_org net fuel user org (zero_counters, zero_counters) s = Some (Inl e, s1)"
    by (simp add: analyze_org_def and_then_Inl)
  then have "analyze_orgs net fuel (org # orgs) (initial_stats user (org # orgs)) s = Some (Inl e, s1)"
    by (simp add: initial_stats_def map_of_foldl_dict_set and_then_Inl
          del: foldl_Cons)
  with assms(1) show ?thesis
    by (simp add: get_user_stats_def collect_stats_def and_then_Inl)
qed

lemma dead_fetch:
  assumes "url \<noteq> []" and "cache s url = None" and "wait_for_rate_limit net s = s"
    and "\<And>i. i < 4 \<Longrightarrow> net (reqs s + i) = ConnError m"
  shows "paginated_request net 4 url s =
         Some (Inl (NetworkError m),
               log_error (''Max retries exceeded for '' @ url)
                 (log_error (''Network error: '' @ m)
                    (requested url (retried url (\<lambda>i. m) 3 s))))"
proof -
  have "paginated_request net 4 url s = fetch_pages net (3 + Suc 0) url url JNull 0 s"
    using assms(2,3) by (simp add: paginated_request.simps)
  also have "\<dots> = fetch_pages net (Suc 0) url url JNull 3 (retried url (\<lambda>i. m) 3 s)"
    using assms(1,4) by (intro retried_run) simp_all
  also have "\<dots> = Some (Inl (NetworkError m),
               log_error (''Max retries exceeded for '' @ url)
                 (log_error (''Network error: '' @ m)
                    (requested url (retried url (\<lambda>i. m) 3 s))))"
    using assms(1) assms(4) [of 3] by (intro give_up_step) simp_all
  finally show ?thesis .
qed

lemma search_url_nonempty [simp]: "search_url role user org kind tf \<noteq> []"
  by (simp add: search_url_def base_url_def)

lemma analyze_user_skip:
  assumes "get_user_stats net fuel user (wait_for_rate_limit net (update_rate_limit_info net s)) =
             Some (Inl e, s1)"
    and "\<not> contains ''API rate limit exceeded'' (err_str e)"
  shows "analyze_user net fuel user results s =
           Some (results, log_error (''Error analyzing '' @ user @ '': '' @ err_str e) s1)"
  using assms by (simp add: analyze_user_def Let_def)

lemma unreachable_analysis:
  "\<exists>s1. get_user_stats (script_net []) 4 ''alice''
           (wait_for_rate_limit (script_net []) (update_rate_limit_info (script_net []) (fresh [''acme'']))) =
         Some (Inl (NetworkError ''unreachable''), s1)"
proof -
  let ?s0 = "wait_for_rate_limit (script_net []) (update_rate_limit_info (script_net []) (fresh [''acme'']))"
  have o: "organizations ?s0 = [''acme'']" by (simp add: fresh_def)
  have c: "cache ?s0 (search_url ''author'' ''alice'' ''acme'' ''pr'' (time_filter ?s0)) = None"
    by (simp add: fresh_def)
  have q: "10 \<le> rate_limit_remaining ?s0"
    by (simp add: wait_for_rate_limit_def update_rate_limit_info_def http_get_def script_net_def
          fresh_def requested_def emit_def log_error_def)
  have w: "wait_for_rate_limit (script_net []) ?s0 = ?s0"
    using q by (simp add: wait_for_rate_limit_def [of _ ?s0])
  have d: "\<And>i. i < 4 \<Longrightarrow> script_net [] (reqs ?s0 + i) = ConnError ''unreachable''"
    by (simp add: script_net_def)
  from first_fetch_fails [OF o dead_fetch [OF search_url_nonempty c w d]]
  show ?thesis by blast
qed

lemma digits_numeral [simp]:
  "digits (numeral k) n =
     (if n < 10 then [digit_char n]
      else digits (pred_numeral k) (n div 10) @ [digit_char (n mod 10)])"
  by (simp add: numeral_eq_Suc)

lemma show_nat_403 [simp]: "show_nat 403 = ''403''"
  by (simp add: show_nat_def digit_char_def)

lemmas stats_defs = get_user_stats_def collect_stats_def analyze_org_def count_prs_def
  count_issues_def count_reviews_def count_comments_def comment_count_def items_of_def
  repo_list_of_def collapse_repos_def and_then_def lift_def initial_stats_def zero_counters_def
  flatten_orgs.simps top_items_def counter_items_def org_prefix_def search_url_def base_url_def
  extend_items_def

lemmas quota_defs = update_rate_limit_info_def core_field_def quota_exceeded_def lower_def
  lower_char_def log_error_def sleep_def on_network_error_def

lemma wait_idle: "rate_limit_reset s \<le> now s \<Longrightarrow> wait_for_rate_limit net s = s"
  by (simp add: wait_for_rate_limit_def)

lemma wait_enough: "10 \<le> rate_limit_remaining s \<Longrightarrow> wait_for_rate_limit net s = s"
  by (simp add: wait_for_rate_limit_def)

lemma refresh_no_data:
  "net (reqs s) = ConnError m \<or> net (reqs s) = ok_response JNull \<Longrightarrow>
   \<exists>msg. update_rate_limit_info net s = log_error msg (requested (base_url @ ''/rate_limit'') s)"
  by (auto simp: update_rate_limit_info_def http_get_def ok_response_def core_field_def)

lemma refresh_no_data_fields:
  assumes "net (reqs s) = ConnError m \<or> net (reqs s) = ok_response JNull"
  shows "rate_limit_remaining (update_rate_limit_info net s) = rate_limit_remaining s"
    "rate_limit_reset (update_rate_limit_info net s) = rate_limit_reset s"
  using refresh_no_data [of net s m] assms by auto

lemma quota_fetch_fails:
  assumes "url \<noteq> []" and "cache s url = None" and "wait_for_rate_limit net s = s"
    and "net (reqs s) = Response r" and "status_code r = 403"
    and "contains ''rate limit exceeded'' (lower (body_text r))"
    and "rate_limit_reset (note_headers r (requested url s))
           - now (note_headers r (requested url s)) + 5 \<le> 0"
  shows "paginated_request net (Suc fuel) url s =
         Some (Inl (RequestFailed 403 (body_text r)),
               update_rate_limit_info net (note_headers r (requested url s)))"
  using assms by (simp add: paginated_request.simps request_page_quota)

lemma note_quota_exceeded [simp]:
  "rate_limit_remaining (note_headers (quota_exceeded t) s) = 0"
  "rate_limit_reset (note_headers (quota_exceeded t) s) = t"
  by (simp_all add: note_headers_def quota_exceeded_def)

lemma quota_exceeded_fields [simp]:
  "status_code (quota_exceeded t) = 403"
  "body_text (quota_exceeded t) = ''API rate limit exceeded for user''"
  by (simp_all add: quota_exceeded_def)

section \<open>Repeating an analysis from the cache\<close>

lemma replaysI:
  assumes "\<And>net fuel s y s'. P net fuel s = Some (Inr y, s') \<Longrightarrow> keeps s s'"
    and "\<And>net fuel s y s' net' fuel' t.
           P net fuel s = Some (Inr y, s') \<Longrightarrow> cache s' \<subseteq>\<^sub>m cache t \<Longrightarrow>
           time_filter t = time_filter s \<Longrightarrow> organizations t = organizations s \<Longrightarrow>
           \<exists>t'. P net' fuel' t = Some (Inr y, t') \<and> cache t' = cache t \<and> config t' = config t"
  shows "replays P"
  unfolding replays_def using assms by blast

lemma replaysD:
  assumes "replays P" and "P net fuel s = Some (Inr y, s')"
  shows "keeps s s'"
    and "cache s' \<subseteq>\<^sub>m cache t \<Longrightarrow> time_filter t = time_filter s \<Longrightarrow>
         organizations t = organizations s \<Longrightarrow>
         \<exists>t'. P net' fuel' t = Some (Inr y, t') \<and> cache t' = cache t \<and> config t' = config t"
  using assms unfolding replays_def by blast+

lemma keeps_fields:
  assumes "keeps s s'"
  shows "time_filter s' = time_filter s" "organizations s' = organizations s"
    "cache s \<subseteq>\<^sub>m cache s'" "completed_users s' = completed_users s"
  using assms by (simp_all add: keeps_def config_def)

lemma replays_fetch:
  "replays (\<lambda>net fuel s. paginated_request net fuel (U (time_filter s)) s)"
proof (rule replaysI)
  fix net fuel s y s'
  assume "paginated_request net fuel (U (time_filter s)) s = Some (Inr y, s')"
  then show "keeps s s'" by (rule paginated_request_keeps)
next
  fix net fuel s y s' net' fuel' and t :: analyzer
  assume run: "paginated_request net fuel (U (time_filter s)) s = Some (Inr y, s')"
    and c: "cache s' \<subseteq>\<^sub>m cache t" and tf: "time_filter t = time_filter s"
  from paginated_request_cache [OF run] have "cache s' (U (time_filter s)) = Some y" by simp
  with c have "cache t (U (time_filter s)) = Some y" by (auto simp: map_le_def dom_def)
  with tf have "paginated_request net' fuel' (U (time_filter t)) t = Some (Inr y, t)"
    by (simp add: paginated_request_hit)
  then show "\<exists>t'. paginated_request net' fuel' (U (time_filter t)) t = Some (Inr y, t')
               \<and> cache t' = cache t \<and> config t' = config t"
    by simp
qed

lemma replays_lift: "replays (\<lambda>net fuel s. lift m s)"
  by (rule replaysI) (auto simp: lift_def)

lemma replays_bind:
  assumes M: "replays M" and F: "\<And>x. replays (F x)"
  shows "replays (\<lambda>net fuel s. and_then (M net fuel s) (\<lambda>x. F x net fuel))"
proof (rule replaysI)
  fix net fuel s y s'
  assume run: "and_then (M net fuel s) (\<lambda>x. F x net fuel) = Some (Inr y, s')"
  then obtain x s1 where m: "M net fuel s = Some (Inr x, s1)" and f: "F x net fuel s1 = Some (Inr y, s')"
    by (auto simp: and_then_def split: option.splits sum.splits)
  from replaysD(1) [OF M m] replaysD(1) [OF F f] show "keeps s s'" by (rule keeps_trans)
next
  fix net fuel s y s' net' fuel' and t :: analyzer
  assume run: "and_then (M net fuel s) (\<lambda>x. F x net fuel) = Some (Inr y, s')"
    and c: "cache s' \<subseteq>\<^sub>m cache t" and tf: "time_filter t = time_filter s"
    and og: "organizations t = organizations s"
  from run obtain x s1 where m: "M net fuel s = Some (Inr x, s1)" and f: "F x net fuel s1 = Some (Inr y, s')"
    by (auto simp: and_then_def split: option.splits sum.splits)
  note k1 = replaysD(1) [OF M m] and k2 = replaysD(1) [OF F f]
  from keeps_fields(3) [OF k2] c have c1: "cache s1 \<subseteq>\<^sub>m cache t" by (rule map_le_trans)
  from replaysD(2) [OF M m c1 tf og, of net' fuel'] obtain t1 where
    m': "M net' fuel' t = Some (Inr x, t1)" and s1: "cache t1 = cache t" "config t1 = config t"
    by blast
  from s1 c have c2: "cache s' \<subseteq>\<^sub>m cache t1" by simp
  from s1(2) tf og keeps_fields(1,2) [OF k1]
  have e: "time_filter t1 = time_filter s1" "organizations t1 = organizations s1"
    by (simp_all add: config_def)
  from replaysD(2) [OF F f c2 e, of net' fuel'] obtain t' where
    f': "F x net' fuel' t1 = Some (Inr y, t')" and s2: "cache t' = cache t1" "config t' = config t1"
    by blast
  from m' f' s1 s2
  show "\<exists>t'. and_then (M net' fuel' t) (\<lambda>x. F x net' fuel') = Some (Inr y, t')
               \<and> cache t' = cache t \<and> config t' = config t"
    by (simp add: and_then_def)
qed

lemma replays_after:
  assumes P: "replays P"
    and g: "\<And>net s. keeps s (g net s)" "\<And>net s. cache (g net s) = cache s"
  shows "replays (\<lambda>net fuel s. P net fuel (g net s))"
proof (rule replaysI)
  fix net fuel s y s'
  assume run: "P net fuel (g net s) = Some (Inr y, s')"
  from g(1) replaysD(1) [OF P run] show "keeps s s'" by (rule keeps_trans)
next
  fix net fuel s y s' net' fuel' and t :: analyzer
  assume run: "P net fuel (g net s) = Some (Inr y, s')"
    and c: "cache s' \<subseteq>\<^sub>m cache t" and tf: "time_filter t = time_filter s"
    and og: "organizations t = organizations s"
  have c': "cache s' \<subseteq>\<^sub>m cache (g net' t)" using c g(2) by simp
  have e: "time_filter (g net' t) = time_filter (g net s)"
    "organizations (g net' t) = organizations (g net s)"
    using keeps_fields(1,2) [OF g(1)] tf og by simp_all
  from replaysD(2) [OF P run c' e, of net' fuel'] obtain t' where
    p: "P net' fuel' (g net' t) = Some (Inr y, t')" and s: "cache t' = cache (g net' t)"
      "config t' = config (g net' t)" by blast
  from g(1) [of t net'] have "config (g net' t) = config t" by (simp add: keeps_def)
  with p s g(2) show "\<exists>t'. P net' fuel' (g net' t) = Some (Inr y, t')
               \<and> cache t' = cache t \<and> config t' = config t"
    by simp
qed

lemma replays_count_prs: "replays (\<lambda>net fuel s. count_prs net fuel user org c s)"
  unfolding count_prs_def
  by (rule replays_bind [where M = "\<lambda>net fuel s. paginated_request net fuel
        (search_url ''author'' user org ''pr'' (time_filter s)) s"])
     (rule replays_fetch [where U = "search_url ''author'' user org ''pr''"], rule replays_lift)


lemma replays_count_issues: "replays (\<lambda>net fuel s. count_issues net fuel user org c s)"
  unfolding count_issues_def
  by (rule replays_bind [where M = "\<lambda>net fuel s. paginated_request net fuel
        (search_url ''author'' user org ''issue'' (time_filter s)) s"])
     (rule replays_fetch [where U = "search_url ''author'' user org ''issue''"], rule replays_lift)

lemma replays_count_reviews: "replays (\<lambda>net fuel s. count_reviews net fuel user org c s)"
  unfolding count_reviews_def
  by (rule replays_bind [where M = "\<lambda>net fuel s. paginated_request net fuel
        (search_url ''reviewed-by'' user org ''pr'' (time_filter s)) s"])
     (rule replays_fetch [where U = "search_url ''reviewed-by'' user org ''pr''"], rule replays_lift)

lemma replays_fetch_after_wait:
  "replays (\<lambda>net fuel s. paginated_request net fuel (U (time_filter s)) (wait_for_rate_limit net s))"
proof -
  have "replays (\<lambda>net fuel s. paginated_request net fuel
          (U (time_filter (wait_for_rate_limit net s))) (wait_for_rate_limit net s))"
    by (rule replays_after [where P = "\<lambda>net fuel s. paginated_request net fuel (U (time_filter s)) s"
          and g = wait_for_rate_limit])
       (simp_all add: replays_fetch)
  then show ?thesis by simp
qed

lemma replays_count_comments: "replays (\<lambda>net fuel s. count_comments net fuel user org c s)"
  unfolding count_comments_def
  apply (rule replays_bind [where M = "\<lambda>net fuel s. paginated_request net fuel
        (search_url ''commenter'' user org ''issue'' (time_filter s)) s"])
   apply (rule replays_fetch [where U = "search_url ''commenter'' user org ''issue''"])
  apply (rule replays_bind [where M = "\<lambda>net fuel s. paginated_request net fuel
        (search_url ''commenter'' user org ''pr'' (time_filter s)) (wait_for_rate_limit net s)"])
   apply (rule replays_fetch_after_wait [where U = "search_url ''commenter'' user org ''pr''"])
  apply (rule replays_lift)
  done

lemma replays_const_fetch: "replays (\<lambda>net fuel s. paginated_request net fuel url s)"
  by (rule replays_fetch [where U = "\<lambda>tf. url"])

lemma replays_return: "replays (\<lambda>net fuel s. Some (Inr c, s))"
  by (rule replaysI) auto

lemma replays_count_batch: "replays (\<lambda>net fuel s. count_batch net fuel user org batch c s)"
proof (induction batch arbitrary: c)
  case Nil
  show ?case by (simp add: replays_return)
next
  case (Cons repo_name batch)
  show ?case
    unfolding count_batch.simps
    by (rule replays_bind [where M = "\<lambda>net fuel s. paginated_request net fuel
          (commits_url org repo_name user) s"])
       (rule replays_const_fetch, rule Cons.IH)
qed

lemma replays_count_commits:
  "replays (\<lambda>net fuel s. count_commits net fuel user org repo_list c s)"
proof (induction repo_list arbitrary: c rule: length_induct)
  case (1 repo_list)
  show ?case
  proof (cases "repo_list = []")
    case True
    then show ?thesis by (subst count_commits.simps) (simp add: replays_return del: count_commits.simps)
  next
    case False
    then have shorter: "length (drop 3 repo_list) < length repo_list" by simp
    from "1.IH" shorter
    have ih: "replays (\<lambda>net fuel s. count_commits net fuel user org (drop 3 repo_list) c1 s)" for c1
      by blast
    have rest: "replays (\<lambda>net fuel s. count_commits net fuel user org (drop 3 repo_list) c1
                  (wait_for_rate_limit net (update_rate_limit_info net s)))" for c1
      by (rule replays_after [where P = "\<lambda>net fuel s. count_commits net fuel user org
                (drop 3 repo_list) c1 s"
              and g = "\<lambda>net s. wait_for_rate_limit net (update_rate_limit_info net s)"])
         (rule ih, simp_all del: count_commits.simps)
    have "replays (\<lambda>net fuel s.
            and_then (count_batch net fuel user org (take 3 repo_list) c s)
              (\<lambda>c1 s1. count_commits net fuel user org (drop 3 repo_list) c1
                 (wait_for_rate_limit net (update_rate_limit_info net s1))))"
      by (rule replays_bind [where M = "\<lambda>net fuel s. count_batch net fuel user org
              (take 3 repo_list) c s"
            and F = "\<lambda>c1 net fuel s1. count_commits net fuel user org (drop 3 repo_list) c1
                 (wait_for_rate_limit net (update_rate_limit_info net s1))"])
         (rule replays_count_batch, rule rest)
    with False show ?thesis by (subst count_commits.simps) (simp del: count_commits.simps)
  qed
qed

lemma replays_analyze_org: "replays (\<lambda>net fuel s. analyze_org net fuel user org c s)"
  unfolding analyze_org_def
  apply (rule replays_bind [where M = "\<lambda>net fuel s. count_prs net fuel user org c s"])
   apply (rule replays_count_prs)
  apply (rule replays_bind [where M = "\<lambda>net fuel s. count_issues net fuel user org c1 s" for c1])
   apply (rule replays_count_issues)
  apply (rule replays_bind [where M = "\<lambda>net fuel s. lift (repo_list_of (snd c2)) s" for c2])
   apply (rule replays_lift)
  apply (rule replays_bind [where M = "\<lambda>net fuel s. count_commits net fuel user org rl c2 s" for rl c2])
   apply (rule replays_count_commits)
  apply (rule replays_bind [where M = "\<lambda>net fuel s. count_reviews net fuel user org c3 s" for c3])
   apply (rule replays_count_reviews)
  apply (rule replays_bind [where M = "\<lambda>net fuel s. count_comments net fuel user org c4 s" for c4])
   apply (rule replays_count_comments)
  apply (rule replays_lift)
  done


lemma replays_fail: "replays (\<lambda>net fuel s. Some (Inl e, s))"
  by (rule replaysI) auto

lemma replays_analyze_orgs: "replays (\<lambda>net fuel s. analyze_orgs net fuel orgs st s)"
proof (induction orgs arbitrary: st)
  case Nil
  show ?case by (simp add: replays_return)
next
  case (Cons org orgs)
  show ?case
  proof (cases "map_of (per_org st) org")
    case None
    then show ?thesis by (simp add: replays_fail)
  next
    case (Some org_stats)
    have "replays (\<lambda>net fuel s.
            and_then (analyze_org net fuel (username st) org (overall st, org_stats) s)
              (\<lambda>c s1. analyze_orgs net fuel orgs
                 (st\<lparr>overall := fst c, per_org := dict_set (per_org st) org (snd c)\<rparr>) s1))"
      by (rule replays_bind [where M = "\<lambda>net fuel s. analyze_org net fuel (username st) org
              (overall st, org_stats) s"
            and F = "\<lambda>c net fuel s1. analyze_orgs net fuel orgs
                 (st\<lparr>overall := fst c, per_org := dict_set (per_org st) org (snd c)\<rparr>) s1"])
         (rule replays_analyze_org, rule Cons.IH)
    with Some show ?thesis by simp
  qed
qed

lemma collect_stats_Inr:
  "collect_stats net fuel user s = Some (Inr st', s') \<longleftrightarrow>
   (\<exists>st. analyze_orgs net fuel (organizations s) (initial_stats user (organizations s)) s
            = Some (Inr st, s')
         \<and> (\<exists>c. collapse_repos (overall st) = Inr c \<and> st' = st\<lparr>overall := c\<rparr>))"
  by (auto simp: collect_stats_def split: option.splits sum.splits)

lemma get_user_stats_Inr:
  "get_user_stats net fuel user s = Some (Inr d, s') \<longleftrightarrow>
   (\<exists>st. collect_stats net fuel user s = Some (Inr st, s')
         \<and> flatten_orgs (organizations s') (per_org st) (top_items st) = Inr d)"
  by (auto simp: get_user_stats_def and_then_def lift_def split: option.splits sum.splits)

lemma get_user_stats_replay:
  fixes t :: analyzer
  assumes run: "get_user_stats net fuel user s = Some (Inr d, s')"
    and c: "cache s' \<subseteq>\<^sub>m cache t" and tf: "time_filter t = time_filter s"
    and og: "organizations t = organizations s"
  shows "\<exists>t'. get_user_stats net' fuel' user t = Some (Inr d, t')
              \<and> cache t' = cache t \<and> config t' = config t"
proof -
  from run obtain st' where cs: "collect_stats net fuel user s = Some (Inr st', s')"
    and fl: "flatten_orgs (organizations s') (per_org st') (top_items st') = Inr d"
    unfolding get_user_stats_Inr by blast
  from cs obtain st k where
    ao: "analyze_orgs net fuel (organizations s) (initial_stats user (organizations s)) s
           = Some (Inr st, s')"
    and col: "collapse_repos (overall st) = Inr k" "st' = st\<lparr>overall := k\<rparr>"
    unfolding collect_stats_Inr by blast
  from replaysD(2) [OF replays_analyze_orgs ao c tf og, of net' fuel'] obtain t' where
    ao': "analyze_orgs net' fuel' (organizations s) (initial_stats user (organizations s)) t
            = Some (Inr st, t')"
    and same: "cache t' = cache t" "config t' = config t" by blast
  from ao' og col have cs': "collect_stats net' fuel' user t = Some (Inr st', t')"
    unfolding collect_stats_Inr by auto
  from collect_stats_keeps [OF cs] have "organizations s' = organizations s"
    by (simp add: keeps_def config_def)
  moreover from same(2) have "organizations t' = organizations t" by (simp add: config_def)
  ultimately have "flatten_orgs (organizations t') (per_org st') (top_items st') = Inr d"
    using fl og by simp
  with cs' have "get_user_stats net' fuel' user t = Some (Inr d, t')"
    unfolding get_user_stats_Inr by blast
  with same show ?thesis by blast
qed

lemma record_success_fields [simp]:
  "fst (record_success user d results s) = results @ [JDict d]"
  "cache (snd (record_success user d results s)) = cache s"
  "time_filter (snd (record_success user d results s)) = time_filter s"
  "organizations (snd (record_success user d results s)) = organizations s"
  "completed_users (snd (record_success user d results s)) = insert user (completed_users s)"
  by (simp_all add: record_success_def save_progress_def emit_def)

lemma save_progress_static [simp]:
  "time_filter (save_progress s) = time_filter s"
  "organizations (save_progress s) = organizations s"
  by (simp_all add: save_progress_def)

lemma get_user_stats_static:
  assumes "get_user_stats net fuel user s = Some (r, s')"
  shows "time_filter s' = time_filter s" "organizations s' = organizations s"
    "cache s \<subseteq>\<^sub>m cache s'"
  using get_user_stats_keeps [OF assms] by (simp_all add: keeps_def config_def)

lemma analyze_user_cases:
  assumes "analyze_user net fuel user results s = Some (results', s')"
  shows "(results' = results \<and> time_filter s' = time_filter s
            \<and> organizations s' = organizations s)
       \<or> (\<exists>d sa sb. results' = results @ [JDict d]
             \<and> get_user_stats net fuel user sa = Some (Inr d, sb)
             \<and> time_filter sa = time_filter s \<and> organizations sa = organizations s
             \<and> cache s' = cache sb \<and> time_filter s' = time_filter s
             \<and> organizations s' = organizations s)"
proof -
  let ?s0 = "wait_for_rate_limit net (update_rate_limit_info net s)"
  have z: "time_filter ?s0 = time_filter s" "organizations ?s0 = organizations s" by simp_all
  show ?thesis
  proof (cases "get_user_stats net fuel user ?s0")
    case None
    with assms show ?thesis by (simp add: analyze_user_def)
  next
    case (Some p)
    obtain r1 s1 where p: "p = (r1, s1)" by (cases p)
    note g1 = Some [unfolded p]
    note st1 = get_user_stats_static [OF g1]
    show ?thesis
    proof (cases r1)
      case (Inr d)
      with assms g1 have "results' = results @ [JDict d]" "s' = snd (record_success user d results s1)"
        by (simp_all add: analyze_user_def record_success_def)
      with g1 Inr st1 z have
        "results' = results @ [JDict d]
             \<and> get_user_stats net fuel user ?s0 = Some (Inr d, s1)
             \<and> time_filter ?s0 = time_filter s \<and> organizations ?s0 = organizations s
             \<and> cache s' = cache s1 \<and> time_filter s' = time_filter s
             \<and> organizations s' = organizations s"
        by simp
      then show ?thesis by blast
    next
      case (Inl e)
      let ?s2 = "log_error (''Error analyzing '' @ user @ '': '' @ err_str e) s1"
      let ?s3 = "wait_for_rate_limit net (update_rate_limit_info net ?s2)"
      have z3: "time_filter ?s3 = time_filter s" "organizations ?s3 = organizations s"
        using st1 z by simp_all
      show ?thesis
      proof (cases "contains ''API rate limit exceeded'' (err_str e)")
        case False
        with assms g1 Inl have "results' = results" "s' = ?s2"
          by (simp_all add: analyze_user_def Let_def)
        with st1 z show ?thesis by simp
      next
        case True
        show ?thesis
        proof (cases "get_user_stats net fuel user ?s3")
          case None
          with assms g1 Inl True show ?thesis by (simp add: analyze_user_def Let_def)
        next
          case (Some q)
          obtain r2 s4 where q: "q = (r2, s4)" by (cases q)
          note g2 = Some [unfolded q]
          note st2 = get_user_stats_static [OF g2]
          show ?thesis
          proof (cases r2)
            case (Inr d)
            with assms g1 Inl True g2
            have "results' = results @ [JDict d]" "s' = snd (record_success user d results s4)"
              by (simp_all add: analyze_user_def Let_def record_success_def)
            with g2 Inr st2 z3 have
              "results' = results @ [JDict d]
                 \<and> get_user_stats net fuel user ?s3 = Some (Inr d, s4)
                 \<and> time_filter ?s3 = time_filter s \<and> organizations ?s3 = organizations s
                 \<and> cache s' = cache s4 \<and> time_filter s' = time_filter s
                 \<and> organizations s' = organizations s"
              by simp
            then show ?thesis by blast
          next
            case (Inl e2)
            with assms g1 \<open>r1 = Inl e\<close> True g2
            have "results' = results"
              "s' = save_progress (log_error (''Failed retry for '' @ user @ '': '' @ err_str e2) s4)"
              by (simp_all add: analyze_user_def Let_def)
            with st2 z3 show ?thesis by simp
          qed
        qed
      qed
    qed
  qed
qed

lemma analyze_user_static:
  assumes "analyze_user net fuel user results s = Some (results', s')"
  shows "time_filter s' = time_filter s" "organizations s' = organizations s"
    "\<exists>more. results' = results @ more"
  using analyze_user_cases [OF assms] by auto

lemma users_loop_static:
  "users_loop net fuel pending results s = Some (results', s') \<Longrightarrow>
     time_filter s' = time_filter s \<and> organizations s' = organizations s
     \<and> (\<exists>more. results' = results @ more)"
proof (induction pending arbitrary: results s)
  case Nil
  then show ?case by simp
next
  case (Cons user pending)
  from Cons.prems obtain r1 s1 where a: "analyze_user net fuel user results s = Some (r1, s1)"
    and l: "users_loop net fuel pending r1 s1 = Some (results', s')"
    by (auto split: option.splits)
  from analyze_user_static [OF a] Cons.IH [OF l] show ?case by auto
qed

lemma users_loop_append:
  "users_loop net fuel (xs @ ys) results s =
     (case users_loop net fuel xs results s of
        None \<Rightarrow> None
      | Some (r1, s1) \<Rightarrow> users_loop net fuel ys r1 s1)"
  by (induction xs arbitrary: results s) (auto split: option.splits)

lemma analyze_user_again:
  fixes t :: analyzer
  assumes run: "get_user_stats net fuel user sa = Some (Inr d, sb)"
    and c: "cache sb \<subseteq>\<^sub>m cache t" and tf: "time_filter t = time_filter sa"
    and og: "organizations t = organizations sa"
  shows "\<exists>t'. analyze_user net' fuel' user results t = Some (results @ [JDict d], t')"
proof -
  let ?t0 = "wait_for_rate_limit net' (update_rate_limit_info net' t)"
  have "cache sb \<subseteq>\<^sub>m cache ?t0" "time_filter ?t0 = time_filter sa"
    "organizations ?t0 = organizations sa"
    using c tf og by simp_all
  from get_user_stats_replay [OF run this, of net' fuel'] obtain t' where
    "get_user_stats net' fuel' user ?t0 = Some (Inr d, t')" by blast
  then show ?thesis by (simp add: analyze_user_def record_success_def)
qed

lemma add_cached_prefix: "\<exists>more. fst (add_cached completed cached results) = results @ more"
proof (induction cached arbitrary: results)
  case Nil
  show ?case by simp
next
  case (Cons c cached)
  from Cons.IH [of results] Cons.IH [of "results @ [c]"] show ?case
    by (auto split: sum.splits bool.splits)
qed

lemma load_cached_prefix: "\<exists>more. fst (load_cached pending results s) = results @ more"
  using add_cached_prefix [of "completed_users s" _ results]
  by (auto simp: load_cached_def split: stored.splits sum.splits prod.splits option.splits)
     (metis fst_conv)+

lemma analyze_users_Some:
  "analyze_users net fuel usernames s = Some (results, s') \<Longrightarrow>
   \<exists>rs sl more. users_loop net fuel [u \<leftarrow> usernames. u \<notin> completed_users s] [] s = Some (rs, sl)
      \<and> results = rs @ more"
proof -
  assume run: "analyze_users net fuel usernames s = Some (results, s')"
  let ?p = "[u \<leftarrow> usernames. u \<notin> completed_users s]"
  from run obtain rs sl where l: "users_loop net fuel ?p [] s = Some (rs, sl)"
    by (auto simp: analyze_users_def Let_def split: option.splits)
  with run have "results = fst (load_cached ?p rs sl)"
    by (auto simp: analyze_users_def Let_def split: prod.splits)
  with load_cached_prefix [of ?p rs sl] l show ?thesis by auto
qed

lemma analyze_users_returns:
  "users_loop net fuel [u \<leftarrow> usernames. u \<notin> completed_users s] [] s = Some (rs, sl) \<Longrightarrow>
   \<exists>results s'. analyze_users net fuel usernames s = Some (results, s')"
  by (simp add: analyze_users_def Let_def split: prod.splits)

lemma idle_analysis:
  "\<exists>s1. analyze_user empty_host 2 ''alice'' [] (fresh [''acme'']) =
          Some ([] @ [JDict (idle_record ''alice'')], s1)"
  by (simp add: analyze_user_def record_success_def stats_defs eval_defs quota_defs
        empty_host_def idle_record_def)

section \<open>Overall counters and counters of the organizations\<close>

lemma add_repo_tracks:
  assumes "add_repo org item c = Inr c'" and "tracks org t0 c"
  shows "tracks org t0 c'"
proof -
  note k = add_repo_counts [OF assms(1)]
  from assms(2) obtain all0 all_repos org_repos where
    r: "repos_contributed t0 = RepoSet all0" "repos_contributed (fst c) = RepoSet all_repos"
      "repos_contributed (snd c) = RepoSet org_repos"
      "\<forall>x \<in> set org_repos. org @ ''/'' @ x \<in> set all_repos"
      "length all_repos \<le> length all0 + length org_repos"
    unfolding tracks_def by blast
  from assms(1) r have
    "c' = c \<or> (\<exists>n. repos_contributed (fst c') = RepoSet (set_add (org @ ''/'' @ n) all_repos)
                  \<and> repos_contributed (snd c') = RepoSet (set_add n org_repos))"
    by (auto simp: add_repo_def then_do_eq_Inr Let_def split: if_splits json.splits)
  then show ?thesis
  proof
    assume "c' = c"
    with assms(2) show ?thesis by simp
  next
    assume "\<exists>n. repos_contributed (fst c') = RepoSet (set_add (org @ ''/'' @ n) all_repos)
                  \<and> repos_contributed (snd c') = RepoSet (set_add n org_repos)"
    then obtain n where
      n: "repos_contributed (fst c') = RepoSet (set_add (org @ ''/'' @ n) all_repos)"
         "repos_contributed (snd c') = RepoSet (set_add n org_repos)" by blast
    have a: "\<forall>x \<in> set (set_add n org_repos). org @ ''/'' @ x \<in> set (set_add (org @ ''/'' @ n) all_repos)"
      using r(4) by (auto simp: set_add_def)
    have b: "length (set_add (org @ ''/'' @ n) all_repos) \<le> length all0 + length (set_add n org_repos)"
      using r(4,5) by (auto simp: set_add_def)
    from assms(2) have "pr_total (fst c) = pr_total t0 + pr_total (snd c)"
      "pr_merged (fst c) = pr_merged t0 + pr_merged (snd c)"
      "pr_open (fst c) = pr_open t0 + pr_open (snd c)"
      "commits (fst c) = commits t0 + commits (snd c)"
      "issues_opened (fst c) = issues_opened t0 + issues_opened (snd c)"
      "issues_closed (fst c) = issues_closed t0 + issues_closed (snd c)"
      "issues_commented (fst c) = issues_commented t0 + issues_commented (snd c)"
      "reviews_submitted (fst c) = reviews_submitted t0 + reviews_submitted (snd c)"
      unfolding tracks_def by simp_all
    with k r(1) n a b show ?thesis unfolding tracks_def by simp
  qed
qed

lemma add_repo_unassigned: "add_repo org item c = Inr c' \<Longrightarrow> unassigned c' = unassigned c"
  using add_repo_counts [of org item c c'] by (simp add: unassigned_def)

lemma add_repo_pr_total: "add_repo org item c = Inr c' \<Longrightarrow> pr_total (snd c') = pr_total (snd c)"
  using add_repo_counts [of org item c c'] by simp

lemma tracks_bump:
  assumes "tracks org t0 c"
  shows "tracks org t0 ((fst c)\<lparr>pr_open := pr_open (fst c) + n\<rparr>, (snd c)\<lparr>pr_open := pr_open (snd c) + n\<rparr>)"
    "tracks org t0 ((fst c)\<lparr>pr_merged := pr_merged (fst c) + n\<rparr>, (snd c)\<lparr>pr_merged := pr_merged (snd c) + n\<rparr>)"
    "tracks org t0 ((fst c)\<lparr>issues_closed := issues_closed (fst c) + n\<rparr>,
                    (snd c)\<lparr>issues_closed := issues_closed (snd c) + n\<rparr>)"
    "tracks org t0 ((fst c)\<lparr>commits := commits (fst c) + n\<rparr>, (snd c)\<lparr>commits := commits (snd c) + n\<rparr>)"
  using assms unfolding tracks_def by simp_all

lemma tracks_assign:
  assumes "tracks org t0 c"
  shows "pr_total (snd c) = 0 \<Longrightarrow>
           tracks org t0 ((fst c)\<lparr>pr_total := pr_total (fst c) + n\<rparr>, (snd c)\<lparr>pr_total := n\<rparr>)"
    "issues_opened (snd c) = 0 \<Longrightarrow>
           tracks org t0 ((fst c)\<lparr>issues_opened := issues_opened (fst c) + n\<rparr>,
                          (snd c)\<lparr>issues_opened := n\<rparr>)"
    "reviews_submitted (snd c) = 0 \<Longrightarrow>
           tracks org t0 ((fst c)\<lparr>reviews_submitted := reviews_submitted (fst c) + n\<rparr>,
                          (snd c)\<lparr>reviews_submitted := n\<rparr>)"
    "issues_commented (snd c) = 0 \<Longrightarrow>
           tracks org t0 ((fst c)\<lparr>issues_commented := issues_commented (fst c) + n\<rparr>,
                          (snd c)\<lparr>issues_commented := n\<rparr>)"
  using assms unfolding tracks_def by simp_all

lemma count_pr_tracks:
  assumes "count_pr org pr c = Inr c'" and "tracks org t0 c"
  shows "tracks org t0 c'" "unassigned c' = unassigned c" "pr_total (snd c') = pr_total (snd c)"
proof -
  from assms(1) obtain c1 where c1: "classify_pr pr c = Inr c1" and r: "add_repo org pr c1 = Inr c'"
    by (auto simp: count_pr_def then_do_eq_Inr)
  from classify_pr_spec [OF c1] assms(2) tracks_bump(1,2) [OF assms(2), of 1]
  have "tracks org t0 c1" by (auto split: if_splits)
  from add_repo_tracks [OF r this] show "tracks org t0 c'" .
  from classify_pr_spec [OF c1] have "unassigned c1 = unassigned c" "pr_total (snd c1) = pr_total (snd c)"
    by (auto simp: unassigned_def split: if_splits)
  with add_repo_unassigned [OF r] add_repo_pr_total [OF r]
  show "unassigned c' = unassigned c" "pr_total (snd c') = pr_total (snd c)" by simp_all
qed

lemma for_each_count_pr_tracks:
  "for_each (count_pr org) prs c = Inr c' \<Longrightarrow> tracks org t0 c \<Longrightarrow>
     tracks org t0 c' \<and> unassigned c' = unassigned c"
proof (induction prs arbitrary: c)
  case Nil
  then show ?case by simp
next
  case (Cons pr prs)
  from Cons.prems(1) obtain c1 where a: "count_pr org pr c = Inr c1"
    and b: "for_each (count_pr org) prs c1 = Inr c'"
    by (auto simp: then_do_eq_Inr)
  from count_pr_tracks [OF a Cons.prems(2)] Cons.IH [OF b] show ?case by simp
qed

lemma count_issue_tracks:
  assumes "count_issue org issue c = Inr c'" and "tracks org t0 c"
  shows "tracks org t0 c'"
    "reviews_submitted (snd c') = reviews_submitted (snd c)"
    "issues_commented (snd c') = issues_commented (snd c)"
proof -
  from assms(1) obtain st where
    r0: "add_repo org issue
          (if st = JStr ''closed'' then
             ((fst c)\<lparr>issues_closed := issues_closed (fst c) + 1\<rparr>,
              (snd c)\<lparr>issues_closed := issues_closed (snd c) + 1\<rparr>)
           else c) = Inr c'"
    by (auto simp: count_issue_def then_do_eq_Inr)
  define c1 where "c1 = (if st = JStr ''closed'' then
             ((fst c)\<lparr>issues_closed := issues_closed (fst c) + 1\<rparr>,
              (snd c)\<lparr>issues_closed := issues_closed (snd c) + 1\<rparr>)
           else c)"
  have c1: "c1 = c \<or> c1 = ((fst c)\<lparr>issues_closed := issues_closed (fst c) + 1\<rparr>,
                        (snd c)\<lparr>issues_closed := issues_closed (snd c) + 1\<rparr>)"
    by (simp add: c1_def)
  from r0 have r: "add_repo org issue c1 = Inr c'" by (simp add: c1_def)
  from c1 assms(2) tracks_bump(3) [OF assms(2), of 1] have "tracks org t0 c1" by auto
  from add_repo_tracks [OF r this] show "tracks org t0 c'" .
  from c1 have "reviews_submitted (snd c1) = reviews_submitted (snd c)"
    "issues_commented (snd c1) = issues_commented (snd c)" by auto
  with add_repo_counts [OF r]
  show "reviews_submitted (snd c') = reviews_submitted (snd c)"
    "issues_commented (snd c') = issues_commented (snd c)" by simp_all
qed

lemma for_each_count_issue_tracks:
  "for_each (count_issue org) issues c = Inr c' \<Longrightarrow> tracks org t0 c \<Longrightarrow>
     tracks org t0 c' \<and> reviews_submitted (snd c') = reviews_submitted (snd c)
     \<and> issues_commented (snd c') = issues_commented (snd c)"
proof (induction issues arbitrary: c)
  case Nil
  then show ?case by simp
next
  case (Cons issue issues)
  from Cons.prems(1) obtain c1 where a: "count_issue org issue c = Inr c1"
    and b: "for_each (count_issue org) issues c1 = Inr c'"
    by (auto simp: then_do_eq_Inr)
  from count_issue_tracks [OF a Cons.prems(2)] Cons.IH [OF b] show ?case by simp
qed


lemma and_then_Inr:
  "and_then m f = Some (Inr y, s') \<longleftrightarrow> (\<exists>x s1. m = Some (Inr x, s1) \<and> f x s1 = Some (Inr y, s'))"
  by (auto simp: and_then_def split: option.splits sum.splits)

lemma lift_Inr: "lift m s = Some (Inr y, s') \<longleftrightarrow> m = Inr y \<and> s' = s"
  by (auto simp: lift_def)

lemma count_prs_tracks:
  assumes "count_prs net fuel user org c s = Some (Inr c', s')"
    and "tracks org t0 c" and "pr_total (snd c) = 0"
  shows "tracks org t0 c' \<and> unassigned c' = unassigned c"
proof -
  from assms(1) obtain pr_data found where
    f: "items_of pr_data = Inr found"
    and p: "(case found of
               None \<Rightarrow> Inr c
             | Some pr_items \<Rightarrow>
                 then_do (py_len pr_items) (\<lambda>n.
                   then_do (py_iter pr_items) (\<lambda>prs.
                     for_each (count_pr org) prs
                       ((fst c)\<lparr>pr_total := pr_total (fst c) + n\<rparr>,
                        (snd c)\<lparr>pr_total := n\<rparr>)))) = Inr c'"
    unfolding count_prs_def and_then_Inr lift_Inr then_do_eq_Inr by blast
  show ?thesis
  proof (cases found)
    case None
    with p assms(2) show ?thesis by simp
  next
    case (Some pr_items)
    with p obtain n prs where
      l: "for_each (count_pr org) prs
            ((fst c)\<lparr>pr_total := pr_total (fst c) + n\<rparr>, (snd c)\<lparr>pr_total := n\<rparr>) = Inr c'"
      by (auto simp: then_do_eq_Inr)
    from for_each_count_pr_tracks [OF l tracks_assign(1) [OF assms(2,3)]]
    show ?thesis by (simp add: unassigned_def)
  qed
qed

lemma count_issues_tracks:
  assumes "count_issues net fuel user org c s = Some (Inr c', s')"
    and "tracks org t0 c" and "issues_opened (snd c) = 0"
  shows "tracks org t0 c' \<and> reviews_submitted (snd c') = reviews_submitted (snd c)
         \<and> issues_commented (snd c') = issues_commented (snd c)"
proof -
  from assms(1) obtain issues_data found where
    f: "items_of issues_data = Inr found"
    and p: "(case found of
               None \<Rightarrow> Inr c
             | Some issue_items \<Rightarrow>
                 then_do (py_len issue_items) (\<lambda>n.
                   then_do (py_iter issue_items) (\<lambda>issues.
                     for_each (count_issue org) issues
                       ((fst c)\<lparr>issues_opened := issues_opened (fst c) + n\<rparr>,
                        (snd c)\<lparr>issues_opened := n\<rparr>)))) = Inr c'"
    unfolding count_issues_def and_then_Inr lift_Inr then_do_eq_Inr by blast
  show ?thesis
  proof (cases found)
    case None
    with p assms(2) show ?thesis by simp
  next
    case (Some issue_items)
    with p obtain n issues where
      l: "for_each (count_issue org) issues
            ((fst c)\<lparr>issues_opened := issues_opened (fst c) + n\<rparr>,
             (snd c)\<lparr>issues_opened := n\<rparr>) = Inr c'"
      by (auto simp: then_do_eq_Inr)
    from for_each_count_issue_tracks [OF l tracks_assign(2) [OF assms(2,3)]]
    show ?thesis by simp
  qed
qed

lemma count_batch_tracks:
  "count_batch net fuel user org batch c s = Some (Inr c', s') \<Longrightarrow> tracks org t0 c \<Longrightarrow>
     tracks org t0 c' \<and> reviews_submitted (snd c') = reviews_submitted (snd c)
     \<and> issues_commented (snd c') = issues_commented (snd c)"
proof (induction batch arbitrary: c s)
  case Nil
  then show ?case by simp
next
  case (Cons repo_name batch)
  from Cons.prems(1) obtain repo_commits s1 where
    r: "count_batch net fuel user org batch
          (case repo_commits of
             JList xs \<Rightarrow>
               ((fst c)\<lparr>commits := commits (fst c) + length xs\<rparr>,
                (snd c)\<lparr>commits := commits (snd c) + length xs\<rparr>)
           | _ \<Rightarrow> c) s1 = Some (Inr c', s')"
    unfolding count_batch.simps and_then_Inr by blast
  show ?case
  proof (cases "\<exists>xs. repo_commits = JList xs")
    case True
    then obtain xs where "repo_commits = JList xs" by blast
    with r Cons.IH [OF _ tracks_bump(4) [OF Cons.prems(2), of "length xs"]]
    show ?thesis by simp
  next
    case False
    then have "(case repo_commits of
             JList xs \<Rightarrow>
               ((fst c)\<lparr>commits := commits (fst c) + length xs\<rparr>,
                (snd c)\<lparr>commits := commits (snd c) + length xs\<rparr>)
           | _ \<Rightarrow> c) = c" by (cases repo_commits) simp_all
    with r Cons.IH [OF _ Cons.prems(2)] show ?thesis by simp
  qed
qed

lemma count_commits_tracks:
  "count_commits net fuel user org repo_list c s = Some (Inr c', s') \<Longrightarrow> tracks org t0 c \<Longrightarrow>
     tracks org t0 c' \<and> reviews_submitted (snd c') = reviews_submitted (snd c)
     \<and> issues_commented (snd c') = issues_commented (snd c)"
proof (induction net fuel user org repo_list c s rule: count_commits.induct)
  case (1 net fuel user org repo_list c s)
  show ?case
  proof (cases "repo_list = []")
    case True
    with "1.prems" show ?thesis by (simp add: count_commits.simps)
  next
    case False
    with "1.prems"(1) obtain c1 s1 where
      b: "count_batch net fuel user org (take 3 repo_list) c s = Some (Inr c1, s1)"
      and r: "count_commits net fuel user org (drop 3 repo_list) c1
                (wait_for_rate_limit net (update_rate_limit_info net s1)) = Some (Inr c', s')"
      by (subst (asm) count_commits.simps) (auto simp: and_then_Inr simp del: count_commits.simps)
    from count_batch_tracks [OF b "1.prems"(2)] "1.IH" [OF False r] show ?thesis
      by simp
  qed
qed

lemma count_reviews_tracks:
  assumes "count_reviews net fuel user org c s = Some (Inr c', s')"
    and "tracks org t0 c" and "reviews_submitted (snd c) = 0"
  shows "tracks org t0 c' \<and> issues_commented (snd c') = issues_commented (snd c)"
proof -
  from assms(1) obtain review_data found where
    f: "items_of review_data = Inr found"
    and p: "(case found of
               None \<Rightarrow> Inr c
             | Some items \<Rightarrow>
                 then_do (py_len items) (\<lambda>n.
                   Inr ((fst c)\<lparr>reviews_submitted := reviews_submitted (fst c) + n\<rparr>,
                        (snd c)\<lparr>reviews_submitted := n\<rparr>))) = Inr c'"
    unfolding count_reviews_def and_then_Inr lift_Inr then_do_eq_Inr by blast
  show ?thesis
  proof (cases found)
    case None
    with p assms(2) show ?thesis by simp
  next
    case (Some items)
    with p obtain n where
      "c' = ((fst c)\<lparr>reviews_submitted := reviews_submitted (fst c) + n\<rparr>,
             (snd c)\<lparr>reviews_submitted := n\<rparr>)"
      by (auto simp: then_do_eq_Inr)
    with tracks_assign(3) [OF assms(2,3), of n] show ?thesis by simp
  qed
qed

lemma count_comments_tracks:
  assumes "count_comments net fuel user org c s = Some (Inr c', s')"
    and "tracks org t0 c" and "issues_commented (snd c) = 0"
  shows "tracks org t0 c'"
proof -
  from assms(1) obtain n where
    "c' = ((fst c)\<lparr>issues_commented := issues_commented (fst c) + n\<rparr>,
           (snd c)\<lparr>issues_commented := n\<rparr>)"
    unfolding count_comments_def and_then_Inr lift_Inr then_do_eq_Inr by blast
  with tracks_assign(4) [OF assms(2,3), of n] show ?thesis by simp
qed

lemma tracks_start:
  "repos_contributed t = RepoSet all0 \<Longrightarrow> tracks org t (t, zero_counters)"
  by (simp add: tracks_def zero_counters_def)

lemma analyze_org_from_zero:
  assumes "analyze_org net fuel user org (t, zero_counters) s = Some (Inr c', s')"
    and "repos_contributed t = RepoSet all0"
  shows "pr_total (fst c') = pr_total t + pr_total (snd c')"
    "pr_merged (fst c') = pr_merged t + pr_merged (snd c')"
    "pr_open (fst c') = pr_open t + pr_open (snd c')"
    "commits (fst c') = commits t + commits (snd c')"
    "issues_opened (fst c') = issues_opened t + issues_opened (snd c')"
    "issues_closed (fst c') = issues_closed t + issues_closed (snd c')"
    "issues_commented (fst c') = issues_commented t + issues_commented (snd c')"
    "reviews_submitted (fst c') = reviews_submitted t + reviews_submitted (snd c')"
    "\<exists>all_repos n. repos_contributed (fst c') = RepoSet all_repos
        \<and> repos_contributed (snd c') = RepoCount n \<and> length all_repos \<le> length all0 + n"
proof -
  let ?c0 = "(t, zero_counters)"
  from assms(1) obtain c1 s1 c2 s2 repo_list c3 s4 c4 s5 c5 o6 where
    st: "count_prs net fuel user org ?c0 s = Some (Inr c1, s1)"
      "count_issues net fuel user org c1 s1 = Some (Inr c2, s2)"
      "count_commits net fuel user org repo_list c2 s2 = Some (Inr c3, s4)"
      "count_reviews net fuel user org c3 s4 = Some (Inr c4, s5)"
      "count_comments net fuel user org c4 s5 = Some (Inr c5, s')"
    and col: "collapse_repos (snd c5) = Inr o6" "c' = (fst c5, o6)"
    unfolding analyze_org_def and_then_Inr lift_Inr then_do_eq_Inr by blast
  have z: "pr_total (snd ?c0) = 0" "unassigned ?c0 = (0, 0, 0)"
    by (simp_all add: zero_counters_def unassigned_def)
  from count_prs_tracks [OF st(1) tracks_start [OF assms(2)] z(1)] z(2)
  have t1: "tracks org t c1" "issues_opened (snd c1) = 0" "reviews_submitted (snd c1) = 0"
    "issues_commented (snd c1) = 0"
    by (simp_all add: unassigned_def)
  from count_issues_tracks [OF st(2) t1(1,2)] t1(3,4)
  have t2: "tracks org t c2" "reviews_submitted (snd c2) = 0" "issues_commented (snd c2) = 0"
    by simp_all
  from count_commits_tracks [OF st(3) t2(1)] t2(2,3)
  have t3: "tracks org t c3" "reviews_submitted (snd c3) = 0" "issues_commented (snd c3) = 0"
    by simp_all
  from count_reviews_tracks [OF st(4) t3(1,2)] t3(3)
  have t4: "tracks org t c4" "issues_commented (snd c4) = 0" by simp_all
  from count_comments_tracks [OF st(5) t4] have t5: "tracks org t c5" .
  then obtain all_repos org_repos where
    r: "repos_contributed (fst c5) = RepoSet all_repos" "repos_contributed (snd c5) = RepoSet org_repos"
      "length all_repos \<le> length all0 + length org_repos"
    using assms(2) unfolding tracks_def by auto
  from col(1) r(2) have o6: "o6 = (snd c5)\<lparr>repos_contributed := RepoCount (length org_repos)\<rparr>"
    by (simp add: collapse_repos_def)
  from t5 col(2) o6 show "pr_total (fst c') = pr_total t + pr_total (snd c')"
    "pr_merged (fst c') = pr_merged t + pr_merged (snd c')"
    "pr_open (fst c') = pr_open t + pr_open (snd c')"
    "commits (fst c') = commits t + commits (snd c')"
    "issues_opened (fst c') = issues_opened t + issues_opened (snd c')"
    "issues_closed (fst c') = issues_closed t + issues_closed (snd c')"
    "issues_commented (fst c') = issues_commented t + issues_commented (snd c')"
    "reviews_submitted (fst c') = reviews_submitted t + reviews_submitted (snd c')"
    unfolding tracks_def by simp_all
  from r col(2) o6 show "\<exists>all_repos n. repos_contributed (fst c') = RepoSet all_repos
        \<and> repos_contributed (snd c') = RepoCount n \<and> length all_repos \<le> length all0 + n"
    by simp
qed

lemma add_repo_collapsed:
  "add_repo org item c = Inr c' \<Longrightarrow> repos_contributed (snd c) = RepoCount n \<Longrightarrow> c' = c"
  by (auto simp: add_repo_def then_do_eq_Inr Let_def split: if_splits json.splits)

lemma count_pr_collapsed:
  assumes "count_pr org pr c = Inr c'" and "repos_contributed (snd c) = RepoCount n"
  shows "repos_contributed (snd c') = RepoCount n"
proof -
  from assms(1) obtain c1 where c1: "classify_pr pr c = Inr c1" and r: "add_repo org pr c1 = Inr c'"
    by (auto simp: count_pr_def then_do_eq_Inr)
  from classify_pr_spec [OF c1] assms(2) have "repos_contributed (snd c1) = RepoCount n"
    by (auto split: if_splits)
  with add_repo_collapsed [OF r] show ?thesis by simp
qed

lemma count_issue_collapsed:
  assumes "count_issue org issue c = Inr c'" and "repos_contributed (snd c) = RepoCount n"
  shows "repos_contributed (snd c') = RepoCount n"
proof -
  from assms(1) obtain st where
    r: "add_repo org issue
          (if st = JStr ''closed'' then
             ((fst c)\<lparr>issues_closed := issues_closed (fst c) + 1\<rparr>,
              (snd c)\<lparr>issues_closed := issues_closed (snd c) + 1\<rparr>)
           else c) = Inr c'"
    by (auto simp: count_issue_def then_do_eq_Inr)
  from add_repo_collapsed [OF r, of n] assms(2) show ?thesis by (auto split: if_splits)
qed

lemma for_each_collapsed:
  assumes step: "\<And>x c c'. f x c = Inr c' \<Longrightarrow> repos_contributed (snd c) = RepoCount n
                   \<Longrightarrow> repos_contributed (snd c') = RepoCount n"
  shows "for_each f xs c = Inr c' \<Longrightarrow> repos_contributed (snd c) = RepoCount n
           \<Longrightarrow> repos_contributed (snd c') = RepoCount n"
proof (induction xs arbitrary: c)
  case Nil
  then show ?case by simp
next
  case (Cons x xs)
  from Cons.prems(1) obtain c1 where a: "f x c = Inr c1" and b: "for_each f xs c1 = Inr c'"
    by (auto simp: then_do_eq_Inr)
  from Cons.IH [OF b step [OF a Cons.prems(2)]] show ?case .
qed

lemma count_prs_collapsed:
  assumes "count_prs net fuel user org c s = Some (Inr c', s')"
    and "repos_contributed (snd c) = RepoCount n"
  shows "repos_contributed (snd c') = RepoCount n"
proof -
  from assms(1) obtain found where
    p: "(case found of
               None \<Rightarrow> Inr c
             | Some pr_items \<Rightarrow>
                 then_do (py_len pr_items) (\<lambda>n.
                   then_do (py_iter pr_items) (\<lambda>prs.
                     for_each (count_pr org) prs
                       ((fst c)\<lparr>pr_total := pr_total (fst c) + n\<rparr>,
                        (snd c)\<lparr>pr_total := n\<rparr>)))) = Inr c'"
    unfolding count_prs_def and_then_Inr lift_Inr then_do_eq_Inr by blast
  show ?thesis
  proof (cases found)
    case None
    with p assms(2) show ?thesis by simp
  next
    case (Some pr_items)
    with p obtain m prs where
      l: "for_each (count_pr org) prs
            ((fst c)\<lparr>pr_total := pr_total (fst c) + m\<rparr>, (snd c)\<lparr>pr_total := m\<rparr>) = Inr c'"
      by (auto simp: then_do_eq_Inr)
    from for_each_collapsed [of "count_pr org" n, OF count_pr_collapsed l] assms(2)
    show ?thesis by simp
  qed
qed

lemma count_issues_collapsed:
  assumes "count_issues net fuel user org c s = Some (Inr c', s')"
    and "repos_contributed (snd c) = RepoCount n"
  shows "repos_contributed (snd c') = RepoCount n"
proof -
  from assms(1) obtain found where
    p: "(case found of
               None \<Rightarrow> Inr c
             | Some issue_items \<Rightarrow>
                 then_do (py_len issue_items) (\<lambda>n.
                   then_do (py_iter issue_items) (\<lambda>issues.
                     for_each (count_issue org) issues
                       ((fst c)\<lparr>issues_opened := issues_opened (fst c) + n\<rparr>,
                        (snd c)\<lparr>issues_opened := n\<rparr>)))) = Inr c'"
    unfolding count_issues_def and_then_Inr lift_Inr then_do_eq_Inr by blast
  show ?thesis
  proof (cases found)
    case None
    with p assms(2) show ?thesis by simp
  next
    case (Some issue_items)
    with p obtain m issues where
      l: "for_each (count_issue org) issues
            ((fst c)\<lparr>issues_opened := issues_opened (fst c) + m\<rparr>,
             (snd c)\<lparr>issues_opened := m\<rparr>) = Inr c'"
      by (auto simp: then_do_eq_Inr)
    from for_each_collapsed [of "count_issue org" n, OF count_issue_collapsed l] assms(2)
    show ?thesis by simp
  qed
qed

lemma analyze_org_collapsed:
  assumes "repos_contributed (snd c) = RepoCount n"
  shows "analyze_org net fuel user org c s \<noteq> Some (Inr c', s')"
proof
  assume "analyze_org net fuel user org c s = Some (Inr c', s')"
  then obtain c1 s1 c2 s2 repo_list where
    st: "count_prs net fuel user org c s = Some (Inr c1, s1)"
      "count_issues net fuel user org c1 s1 = Some (Inr c2, s2)"
    and rl: "repo_list_of (snd c2) = Inr repo_list"
    unfolding analyze_org_def and_then_Inr lift_Inr by blast
  from count_issues_collapsed [OF st(2) count_prs_collapsed [OF st(1) assms]]
  have "repos_contributed (snd c2) = RepoCount n" .
  with rl show False by (simp add: repo_list_of_def)
qed

lemma org_sum_dict_set:
  "map_of d k = Some old \<Longrightarrow> org_sum f (dict_set d k v) + f old = org_sum f d + f v"
  by (induction d) (auto simp: org_sum_def)

lemma keys_dict_set:
  "k \<in> fst ` set d \<Longrightarrow> map fst (dict_set d k v) = map fst d"
  by (induction d k v rule: dict_set.induct) (auto simp: image_iff)

lemma keys_dict_set_new:
  "k \<notin> fst ` set d \<Longrightarrow> map fst (dict_set d k v) = map fst d @ [k]"
  by (induction d k v rule: dict_set.induct) (auto simp: image_iff)

lemma set_dict_set: "set (dict_set d k v) \<subseteq> insert (k, v) (set d)"
  by (induction d k v rule: dict_set.induct) auto

lemma key_set_dict_set: "fst ` set (dict_set d k v) = insert k (fst ` set d)"
  by (induction d k v rule: dict_set.induct) auto

lemma map_of_Some_key: "k \<in> fst ` set d \<Longrightarrow> \<exists>v. map_of d k = Some v"
  by (induction d) auto

lemma map_of_in_set: "map_of d k = Some v \<Longrightarrow> (k, v) \<in> set d"
  by (rule map_of_SomeD)

lemma zero_counts [simp]:
  "pr_total zero_counters = 0" "pr_merged zero_counters = 0" "pr_open zero_counters = 0"
  "commits zero_counters = 0" "issues_opened zero_counters = 0" "issues_closed zero_counters = 0"
  "issues_commented zero_counters = 0" "reviews_submitted zero_counters = 0"
  "repo_count zero_counters = 0" "repos_contributed zero_counters = RepoSet []"
  by (simp_all add: zero_counters_def repo_count_def)

lemma consistent_step:
  assumes con: "consistent st" and look: "map_of (per_org st) org = Some zero_counters"
    and run: "analyze_org net fuel user org (overall st, zero_counters) s = Some (Inr c, s1)"
  shows "consistent (st\<lparr>overall := fst c, per_org := dict_set (per_org st) org (snd c)\<rparr>)"
    and "\<exists>n. repos_contributed (snd c) = RepoCount n"
proof -
  from con obtain all0 where a0: "repos_contributed (overall st) = RepoSet all0"
    and l0: "length all0 \<le> org_sum repo_count (per_org st)"
    unfolding consistent_def by blast
  note p = analyze_org_from_zero [OF run a0]
  from p(9) obtain all_repos n where
    r: "repos_contributed (fst c) = RepoSet all_repos" "repos_contributed (snd c) = RepoCount n"
      "length all_repos \<le> length all0 + n" by blast
  from r(2) show "\<exists>n. repos_contributed (snd c) = RepoCount n" by blast
  have s: "org_sum f (dict_set (per_org st) org (snd c)) = org_sum f (per_org st) + f (snd c)"
    if "f zero_counters = 0" for f
    using org_sum_dict_set [OF look, of f "snd c"] that by simp
  have rc: "repo_count (snd c) = n" using r(2) by (simp add: repo_count_def)
  have e: "\<forall>kv \<in> set (dict_set (per_org st) org (snd c)).
             snd kv = zero_counters \<or> (\<exists>n. repos_contributed (snd kv) = RepoCount n)"
  proof
    fix kv assume "kv \<in> set (dict_set (per_org st) org (snd c))"
    with set_dict_set [of "per_org st" org "snd c"] have "kv = (org, snd c) \<or> kv \<in> set (per_org st)"
      by auto
    with con r(2) show "snd kv = zero_counters \<or> (\<exists>n. repos_contributed (snd kv) = RepoCount n)"
      unfolding consistent_def by auto
  qed
  from con p(1-8) r(1) r(3) l0 rc e
  show "consistent (st\<lparr>overall := fst c, per_org := dict_set (per_org st) org (snd c)\<rparr>)"
    unfolding consistent_def by (simp add: s)
qed

lemma analyze_orgs_consistent:
  "analyze_orgs net fuel orgs st s = Some (Inr st', s') \<Longrightarrow> consistent st \<Longrightarrow>
   set orgs \<subseteq> fst ` set (per_org st) \<Longrightarrow>
     consistent st' \<and> distinct orgs \<and> map fst (per_org st') = map fst (per_org st)
     \<and> (\<forall>org \<in> set orgs. map_of (per_org st) org = Some zero_counters)"
proof (induction orgs arbitrary: st s)
  case Nil
  then show ?case by simp
next
  case (Cons org orgs)
  from Cons.prems(3) have key: "org \<in> fst ` set (per_org st)" by simp
  then obtain old where look: "map_of (per_org st) org = Some old"
    using map_of_Some_key by fastforce
  let ?st1 = "\<lambda>c. st\<lparr>overall := fst c, per_org := dict_set (per_org st) org (snd c)\<rparr>"
  from Cons.prems(1) look obtain c s1 where
    run: "analyze_org net fuel (username st) org (overall st, old) s = Some (Inr c, s1)"
    and rest: "analyze_orgs net fuel orgs (?st1 c) s1 = Some (Inr st', s')"
    by (auto simp: and_then_Inr)
  from look have "(org, old) \<in> set (per_org st)" by (rule map_of_SomeD)
  with Cons.prems(2) have "old = zero_counters \<or> (\<exists>n. repos_contributed old = RepoCount n)"
    unfolding consistent_def by fastforce
  with analyze_org_collapsed [of "(overall st, old)" _ net fuel "username st" org s c s1] run
  have z: "old = zero_counters" by auto
  note step = consistent_step [OF Cons.prems(2) look [unfolded z] run [unfolded z]]
  have keys: "map fst (per_org (?st1 c)) = map fst (per_org st)"
    using keys_dict_set [OF key] by simp
  with Cons.prems(3) have sub: "set orgs \<subseteq> fst ` set (per_org (?st1 c))"
    by (metis list.set_map set_subset_Cons subset_trans)
  from Cons.IH [OF rest step(1) sub] have
    ih: "consistent st'" "distinct orgs" "map fst (per_org st') = map fst (per_org (?st1 c))"
      "\<forall>o' \<in> set orgs. map_of (per_org (?st1 c)) o' = Some zero_counters"
    by simp_all
  from step(2) obtain n where n: "repos_contributed (snd c) = RepoCount n" by blast
  have notin: "org \<notin> set orgs"
  proof
    assume "org \<in> set orgs"
    with ih(4) have "map_of (dict_set (per_org st) org (snd c)) org = Some zero_counters" by simp
    then have "snd c = zero_counters" by (simp add: map_of_dict_set)
    with n show False by simp
  qed
  have zeros: "\<forall>o' \<in> set (org # orgs). map_of (per_org st) o' = Some zero_counters"
  proof
    fix o' assume "o' \<in> set (org # orgs)"
    then show "map_of (per_org st) o' = Some zero_counters"
    proof (cases "o' = org")
      case True
      with look z show ?thesis by simp
    next
      case False
      with \<open>o' \<in> set (org # orgs)\<close> have "o' \<in> set orgs" by simp
      with ih(4) have "map_of (dict_set (per_org st) org (snd c)) o' = Some zero_counters"
        by simp
      with False show ?thesis by (simp add: map_of_dict_set)
    qed
  qed
  from ih(1,2,3) keys notin zeros show ?case by simp
qed

lemma initial_table:
  "snd ` set (foldl (\<lambda>d org. dict_set d org z) d orgs) \<subseteq> insert z (snd ` set d)"
proof (induction orgs arbitrary: d)
  case Nil
  show ?case by auto
next
  case (Cons org orgs)
  from set_dict_set [of d org z] have "snd ` set (dict_set d org z) \<subseteq> insert z (snd ` set d)"
    by force
  with Cons.IH [of "dict_set d org z"] show ?case by auto
qed

lemma initial_keys:
  "fst ` set (foldl (\<lambda>d org. dict_set d org z) d orgs) = fst ` set d \<union> set orgs"
proof (induction orgs arbitrary: d)
  case Nil
  show ?case by simp
next
  case (Cons org orgs)
  from Cons.IH [of "dict_set d org z"] show ?case by (auto simp: key_set_dict_set)
qed

lemma initial_keys_distinct:
  "distinct orgs \<Longrightarrow> set orgs \<inter> fst ` set d = {} \<Longrightarrow>
     map fst (foldl (\<lambda>d org. dict_set d org z) d orgs) = map fst d @ orgs"
proof (induction orgs arbitrary: d)
  case Nil
  show ?case by simp
next
  case (Cons org orgs)
  from Cons.prems have n: "org \<notin> fst ` set d" by auto
  note k = key_set_dict_set [of d org z]
  from Cons.prems k have "set orgs \<inter> fst ` set (dict_set d org z) = {}" by auto
  with Cons.IH [of "dict_set d org z"] Cons.prems keys_dict_set_new [OF n, of z]
  show ?case by simp
qed

lemma org_sum_zero:
  "snd ` set d \<subseteq> {z} \<Longrightarrow> f z = 0 \<Longrightarrow> org_sum f d = 0"
  by (induction d) (auto simp: org_sum_def)

lemma consistent_initial: "consistent (initial_stats user orgs)"
proof -
  let ?d = "foldl (\<lambda>d org. dict_set d org zero_counters) [] orgs"
  from initial_table [of zero_counters "[]" orgs] have z: "snd ` set ?d \<subseteq> {zero_counters}" by simp
  then have "\<forall>kv \<in> set ?d. snd kv = zero_counters" by auto
  with org_sum_zero [OF z] show ?thesis
    by (simp add: consistent_def initial_stats_def)
qed

lemmas host_defs = two_org_host_def found_def merged_pr_def rejected_pr_def beta_pr_def
  acme_issue_def count_pr_def classify_pr_def merged_at_def add_repo_def count_issue_def
  last_segment_def set_add_def commits_url_def count_commits.simps

lemma two_org_run:
  "\<exists>d s'. get_user_stats two_org_host 2 ''alice'' (fresh [''acme'', ''beta'']) = Some (Inr d, s')
      \<and> map_of d ''pr_total'' = Some (JNum 3)
      \<and> map_of d ''acme_pr_total'' = Some (JNum 2)
      \<and> map_of d ''beta_pr_total'' = Some (JNum 1)
      \<and> map_of d ''commits'' = Some (JNum 6)
      \<and> map_of d ''repos_contributed'' = Some (JNum 2)"
  by (simp add: stats_defs eval_defs quota_defs host_defs)

section \<open>The keys of the record\<close>

lemma counter_items_keys: "map fst (counter_items c) = counter_keys"
  by (simp add: counter_items_def counter_keys_def)

lemma ends_with_keyI: "a @ CHR ''_'' # x = t \<Longrightarrow> ends_with_key t x"
  by (auto simp: ends_with_key_def)

lemma no_key_ends_with_key:
  "\<forall>x \<in> set counter_keys. \<forall>t \<in> set (''username'' # counter_keys). \<not> ends_with_key t x"
  by (simp add: counter_keys_def ends_with_key_def)

lemma prefixed_key_top:
  assumes "x \<in> set counter_keys" and "t \<in> set (''username'' # counter_keys)"
  shows "a @ ''_'' @ x \<noteq> t"
  using assms no_key_ends_with_key ends_with_keyI [of a x t] by auto

lemma longer_key:
  assumes "a @ CHR ''_'' # x = b @ CHR ''_'' # y" and "length x < length y"
  shows "ends_with_key y x"
proof -
  from assms(1) have "(a @ ''_'') @ x = (b @ ''_'') @ y" by simp
  then obtain us where
    "(a @ ''_'' = (b @ ''_'') @ us \<and> us @ x = y) \<or> ((a @ ''_'') @ us = b @ ''_'' \<and> x = us @ y)"
    unfolding append_eq_append_conv2 by blast
  with assms(2) have u: "a @ ''_'' = (b @ ''_'') @ us" "us @ x = y" by auto
  with assms(2) have "us \<noteq> []" by auto
  then obtain vs c where us: "us = vs @ [c]" by (metis rev_exhaust)
  with u(1) have "c = CHR ''_''" by simp
  with us u(2) have "vs @ CHR ''_'' # x = y" by simp
  then show ?thesis by (rule ends_with_keyI)
qed

lemma prefixed_key_inj:
  assumes "x \<in> set counter_keys" and "y \<in> set counter_keys"
    and "a @ ''_'' @ x = b @ ''_'' @ y"
  shows "a = b \<and> x = y"
proof -
  from assms(3) have eq: "a @ CHR ''_'' # x = b @ CHR ''_'' # y" by simp
  have "\<not> length x < length y"
    using longer_key [OF eq] no_key_ends_with_key assms(1,2) by auto
  moreover have "\<not> length y < length x"
    using longer_key [OF eq [symmetric]] no_key_ends_with_key assms(1,2) by auto
  ultimately have "length x = length y" by simp
  with eq have "length a = length b" by (metis length_append length_Cons add_right_cancel Suc_inject add_Suc_right)
  with eq show ?thesis by simp
qed

lemma org_prefix_inj:
  assumes "x \<in> set counter_keys" and "y \<in> set counter_keys"
    and "org_prefix a @ x = org_prefix b @ y"
  shows "org_prefix a = org_prefix b \<and> x = y"
  using prefixed_key_inj [OF assms(1,2)] assms(3) by (simp add: org_prefix_def)

lemma org_prefix_top:
  assumes "x \<in> set counter_keys" and "t \<in> set (''username'' # counter_keys)"
  shows "t \<noteq> org_prefix a @ x"
  using prefixed_key_top [OF assms] by (auto simp: org_prefix_def)

section \<open>The record after flattening\<close>

lemma flat_other:
  "k \<notin> (\<lambda>kv. p @ fst kv) ` set items \<Longrightarrow>
     map_of (foldl (\<lambda>d' kv. dict_set d' (p @ fst kv) (snd kv)) d items) k = map_of d k"
  by (induction items arbitrary: d) (simp_all add: map_of_dict_set)

lemma flat_at:
  "distinct (map fst items) \<Longrightarrow> (x, v) \<in> set items \<Longrightarrow>
     map_of (foldl (\<lambda>d' kv. dict_set d' (p @ fst kv) (snd kv)) d items) (p @ x) = Some v"
proof (induction items arbitrary: d)
  case Nil
  then show ?case by simp
next
  case (Cons kv items)
  show ?case
  proof (cases "(x, v) = kv")
    case True
    with Cons.prems(1) have "x \<notin> fst ` set items" by force
    then have "p @ x \<notin> (\<lambda>kv. p @ fst kv) ` set items" by auto
    from flat_other [OF this] True show ?thesis by (auto simp: map_of_dict_set)
  next
    case False
    with Cons.prems have "distinct (map fst items)" "(x, v) \<in> set items" by auto
    from Cons.IH [OF this] show ?thesis by simp
  qed
qed

lemma flatten_other:
  "flatten_orgs orgs table d0 = Inr d \<Longrightarrow>
   \<forall>org \<in> set orgs. \<forall>x \<in> set counter_keys. k \<noteq> org_prefix org @ x \<Longrightarrow>
     map_of d k = map_of d0 k"
proof (induction orgs arbitrary: d0)
  case Nil
  then show ?case by simp
next
  case (Cons org orgs)
  from Cons.prems(1) obtain c where c: "map_of table org = Some c"
    and rest: "flatten_orgs orgs table
        (foldl (\<lambda>d' kv. dict_set d' (org_prefix org @ fst kv) (snd kv)) d0 (counter_items c)) = Inr d"
    by (auto split: option.splits)
  from Cons.prems(2) have "k \<notin> (\<lambda>kv. org_prefix org @ fst kv) ` set (counter_items c)"
    using counter_items_keys [of c] by (metis (no_types, lifting) image_iff list.set_intros(1) list.set_map)
  from flat_other [OF this] Cons.IH [OF rest] Cons.prems(2) show ?case by simp
qed

lemma flatten_top:
  assumes "flatten_orgs orgs table d0 = Inr d" and "t \<in> set (''username'' # counter_keys)"
  shows "map_of d t = map_of d0 t"
  using assms(1) by (rule flatten_other) (use org_prefix_top [OF _ assms(2)] in blast)

lemma flatten_at:
  "flatten_orgs orgs table d0 = Inr d \<Longrightarrow> distinct (map org_prefix orgs) \<Longrightarrow>
   org \<in> set orgs \<Longrightarrow> map_of table org = Some c \<Longrightarrow> (x, v) \<in> set (counter_items c) \<Longrightarrow>
     map_of d (org_prefix org @ x) = Some v"
proof (induction orgs arbitrary: d0)
  case Nil
  then show ?case by simp
next
  case (Cons o1 orgs)
  from Cons.prems(1) obtain c1 where c1: "map_of table o1 = Some c1"
    and rest: "flatten_orgs orgs table
        (foldl (\<lambda>d' kv. dict_set d' (org_prefix o1 @ fst kv) (snd kv)) d0 (counter_items c1)) = Inr d"
    by (auto split: option.splits)
  from Cons.prems(5) have x: "x \<in> set counter_keys"
    using counter_items_keys [of c] by (metis fst_conv image_eqI list.set_map)
  show ?case
  proof (cases "org \<in> set orgs")
    case True
    from Cons.IH [OF rest _ True Cons.prems(4,5)] Cons.prems(2) show ?thesis by simp
  next
    case False
    with Cons.prems(3) have o: "o1 = org" by simp
    with c1 Cons.prems(4) have cc: "c1 = c" by simp
    have "\<forall>o' \<in> set orgs. \<forall>y \<in> set counter_keys. org_prefix org @ x \<noteq> org_prefix o' @ y"
    proof (intro ballI notI)
      fix o' y assume o': "o' \<in> set orgs" and y: "y \<in> set counter_keys"
        and eq: "org_prefix org @ x = org_prefix o' @ y"
      from org_prefix_inj [OF x y eq] have "org_prefix org = org_prefix o'" by simp
      with Cons.prems(2) o o' show False by auto
    qed
    from flatten_other [OF rest this] have
      "map_of d (org_prefix org @ x) =
       map_of (foldl (\<lambda>d' kv. dict_set d' (org_prefix o1 @ fst kv) (snd kv)) d0 (counter_items c1))
         (org_prefix org @ x)" .
    also have "\<dots> = Some v"
      unfolding o cc
      by (rule flat_at [OF _ Cons.prems(5)]) (simp add: counter_items_keys counter_keys_def)
    finally show ?thesis .
  qed
qed

lemma org_total_sum:
  "\<forall>kv \<in> set tb. number_at d (org_prefix (fst kv) @ x) = Some (int (f (snd kv))) \<Longrightarrow>
     org_total d (map fst tb) x = Some (int (org_sum f tb))"
  by (induction tb) (simp_all add: org_sum_def)

lemma counter_items_mem:
  "(''pr_total'', JNum (int (pr_total c))) \<in> set (counter_items c)"
  "(''pr_merged'', JNum (int (pr_merged c))) \<in> set (counter_items c)"
  "(''pr_open'', JNum (int (pr_open c))) \<in> set (counter_items c)"
  "(''commits'', JNum (int (commits c))) \<in> set (counter_items c)"
  "(''issues_opened'', JNum (int (issues_opened c))) \<in> set (counter_items c)"
  "(''issues_closed'', JNum (int (issues_closed c))) \<in> set (counter_items c)"
  "(''issues_commented'', JNum (int (issues_commented c))) \<in> set (counter_items c)"
  "(''reviews_submitted'', JNum (int (reviews_submitted c))) \<in> set (counter_items c)"
  "(''repos_contributed'', repos_value (repos_contributed c)) \<in> set (counter_items c)"
  by (simp_all add: counter_items_def)

lemma top_items_at:
  "map_of (top_items st) ''pr_total'' = Some (JNum (int (pr_total (overall st))))"
  "map_of (top_items st) ''pr_merged'' = Some (JNum (int (pr_merged (overall st))))"
  "map_of (top_items st) ''pr_open'' = Some (JNum (int (pr_open (overall st))))"
  "map_of (top_items st) ''commits'' = Some (JNum (int (commits (overall st))))"
  "map_of (top_items st) ''issues_opened'' = Some (JNum (int (issues_opened (overall st))))"
  "map_of (top_items st) ''issues_closed'' = Some (JNum (int (issues_closed (overall st))))"
  "map_of (top_items st) ''issues_commented'' = Some (JNum (int (issues_commented (overall st))))"
  "map_of (top_items st) ''reviews_submitted'' = Some (JNum (int (reviews_submitted (overall st))))"
  "map_of (top_items st) ''repos_contributed'' = Some (repos_value (repos_contributed (overall st)))"
  by (simp_all add: top_items_def)

lemma record_org_total:
  assumes fl: "flatten_orgs orgs table d0 = Inr d" and dis: "distinct (map org_prefix orgs)"
    and keys: "map fst table = orgs"
    and at: "\<And>c. (x, JNum (int (f c))) \<in> set (counter_items c)"
  shows "org_total d orgs x = Some (int (org_sum f table))"
proof -
  from dis have d1: "distinct orgs" by (simp add: distinct_map)
  have "\<forall>kv \<in> set table. number_at d (org_prefix (fst kv) @ x) = Some (int (f (snd kv)))"
  proof
    fix kv assume kv: "kv \<in> set table"
    with keys have mem: "fst kv \<in> set orgs" by auto
    from d1 keys kv have look: "map_of table (fst kv) = Some (snd kv)" by simp
    from flatten_at [OF fl dis mem look at]
    show "number_at d (org_prefix (fst kv) @ x) = Some (int (f (snd kv)))"
      by (simp add: number_at_def)
  qed
  from org_total_sum [OF this] keys show ?thesis by simp
qed

section \<open>The statistics of a completed analysis\<close>

lemma analyze_orgs_other:
  "analyze_orgs net fuel orgs st s = Some (Inr st', s') \<Longrightarrow>
     username st' = username st \<and> (k \<notin> set orgs \<longrightarrow> map_of (per_org st') k = map_of (per_org st) k)"
proof (induction orgs arbitrary: st s)
  case Nil
  then show ?case by simp
next
  case (Cons org orgs)
  from Cons.prems obtain old c s1 where
    rest: "analyze_orgs net fuel orgs
             (st\<lparr>overall := fst c, per_org := dict_set (per_org st) org (snd c)\<rparr>) s1 =
           Some (Inr st', s')"
    by (auto simp: and_then_Inr split: option.splits)
  from Cons.IH [OF rest] show ?case by (auto simp: map_of_dict_set)
qed

lemma analyze_orgs_entries:
  "analyze_orgs net fuel orgs st s = Some (Inr st', s') \<Longrightarrow> consistent st \<Longrightarrow>
   set orgs \<subseteq> fst ` set (per_org st) \<Longrightarrow> org \<in> set orgs \<Longrightarrow>
     \<exists>t all0 s0 s1 c.
        analyze_org net fuel (username st) org (t, zero_counters) s0 = Some (Inr c, s1)
      \<and> repos_contributed t = RepoSet all0
      \<and> map_of (per_org st') org = Some (snd c)
      \<and> keeps s s0 \<and> keeps s1 s'"
proof (induction orgs arbitrary: st s)
  case Nil
  then show ?case by simp
next
  case (Cons o1 orgs)
  note all = analyze_orgs_consistent [OF Cons.prems(1-3)]
  from all have look: "map_of (per_org st) o1 = Some zero_counters" and notin: "o1 \<notin> set orgs"
    by simp_all
  let ?st1 = "\<lambda>c. st\<lparr>overall := fst c, per_org := dict_set (per_org st) o1 (snd c)\<rparr>"
  from Cons.prems(1) look obtain c s1 where
    run: "analyze_org net fuel (username st) o1 (overall st, zero_counters) s = Some (Inr c, s1)"
    and rest: "analyze_orgs net fuel orgs (?st1 c) s1 = Some (Inr st', s')"
    by (auto simp: and_then_Inr)
  from Cons.prems(2) obtain all0 where a0: "repos_contributed (overall st) = RepoSet all0"
    unfolding consistent_def by blast
  show ?case
  proof (cases "org = o1")
    case True
    from analyze_orgs_other [OF rest, of o1] notin
    have "map_of (per_org st') o1 = Some (snd c)" by (simp add: map_of_dict_set)
    with run a0 True analyze_orgs_keeps [OF rest] keeps_refl [of s] show ?thesis by blast
  next
    case False
    with Cons.prems(4) have mem: "org \<in> set orgs" by simp
    note step = consistent_step [OF Cons.prems(2) look run]
    from Cons.prems(3) have key: "o1 \<in> fst ` set (per_org st)" by simp
    have keys: "map fst (per_org (?st1 c)) = map fst (per_org st)"
      using keys_dict_set [OF key] by simp
    with Cons.prems(3) have sub: "set orgs \<subseteq> fst ` set (per_org (?st1 c))"
      by (metis list.set_map set_subset_Cons subset_trans)
    from Cons.IH [OF rest step(1) sub mem] obtain t b0 s0 s2 c2 where
      r: "analyze_org net fuel (username (?st1 c)) org (t, zero_counters) s0 = Some (Inr c2, s2)"
        "repos_contributed t = RepoSet b0" "map_of (per_org st') org = Some (snd c2)"
        "keeps s1 s0" "keeps s2 s'"
      by blast
    from keeps_trans [OF analyze_org_keeps [OF run] r(4)] have k: "keeps s s0" .
    from r(1) have "analyze_org net fuel (username st) org (t, zero_counters) s0 = Some (Inr c2, s2)"
      by simp
    with r(2,3,5) k show ?thesis by blast
  qed
qed

lemma collect_stats_shape:
  assumes "collect_stats net fuel user s = Some (Inr st, s')"
  shows "map fst (per_org st) = organizations s"
    and "distinct (organizations s)"
    and "pr_total (overall st) = org_sum pr_total (per_org st)"
    and "pr_merged (overall st) = org_sum pr_merged (per_org st)"
    and "pr_open (overall st) = org_sum pr_open (per_org st)"
    and "commits (overall st) = org_sum commits (per_org st)"
    and "issues_opened (overall st) = org_sum issues_opened (per_org st)"
    and "issues_closed (overall st) = org_sum issues_closed (per_org st)"
    and "issues_commented (overall st) = org_sum issues_commented (per_org st)"
    and "reviews_submitted (overall st) = org_sum reviews_submitted (per_org st)"
    and "\<exists>n. repos_contributed (overall st) = RepoCount n \<and> n \<le> org_sum repo_count (per_org st)"
    and "\<forall>kv \<in> set (per_org st). \<exists>n. repos_contributed (snd kv) = RepoCount n"
proof -
  let ?orgs = "organizations s"
  from assms obtain st0 k where
    ao: "analyze_orgs net fuel ?orgs (initial_stats user ?orgs) s = Some (Inr st0, s')"
    and col: "collapse_repos (overall st0) = Inr k" "st = st0\<lparr>overall := k\<rparr>"
    unfolding collect_stats_Inr by blast
  have sub: "set ?orgs \<subseteq> fst ` set (per_org (initial_stats user ?orgs))"
    by (simp add: initial_stats_def initial_keys)
  from analyze_orgs_consistent [OF ao consistent_initial sub] have
    con: "consistent st0" and dis: "distinct ?orgs"
    and keys: "map fst (per_org st0) = map fst (per_org (initial_stats user ?orgs))"
    by simp_all
  from initial_keys_distinct [OF dis, of "[]" zero_counters] keys
  have k1: "map fst (per_org st0) = ?orgs" by (simp add: initial_stats_def)
  from con obtain all_repos where r: "repos_contributed (overall st0) = RepoSet all_repos"
    "length all_repos \<le> org_sum repo_count (per_org st0)"
    unfolding consistent_def by blast
  with col(1) have k: "k = (overall st0)\<lparr>repos_contributed := RepoCount (length all_repos)\<rparr>"
    by (simp add: collapse_repos_def)
  from k1 col(2) show "map fst (per_org st) = ?orgs" by simp
  from dis show "distinct ?orgs" .
  from con col(2) k show "pr_total (overall st) = org_sum pr_total (per_org st)"
    "pr_merged (overall st) = org_sum pr_merged (per_org st)"
    "pr_open (overall st) = org_sum pr_open (per_org st)"
    "commits (overall st) = org_sum commits (per_org st)"
    "issues_opened (overall st) = org_sum issues_opened (per_org st)"
    "issues_closed (overall st) = org_sum issues_closed (per_org st)"
    "issues_commented (overall st) = org_sum issues_commented (per_org st)"
    "reviews_submitted (overall st) = org_sum reviews_submitted (per_org st)"
    unfolding consistent_def by simp_all
  from col(2) k r show
    "\<exists>n. repos_contributed (overall st) = RepoCount n \<and> n \<le> org_sum repo_count (per_org st)"
    by simp
  show "\<forall>kv \<in> set (per_org st). \<exists>n. repos_contributed (snd kv) = RepoCount n"
  proof
    fix kv assume kv: "kv \<in> set (per_org st)"
    with col(2) k1 have mem: "fst kv \<in> set ?orgs" by (metis image_eqI list.set_map select_convs(3) surjective update_convs(2))
    from analyze_orgs_entries [OF ao consistent_initial sub mem] obtain t all0 s0 s1 c where
      run: "analyze_org net fuel (username (initial_stats user ?orgs)) (fst kv) (t, zero_counters) s0
              = Some (Inr c, s1)"
      and t: "repos_contributed t = RepoSet all0"
      and e: "map_of (per_org st0) (fst kv) = Some (snd c)"
      by blast
    from k1 dis have "distinct (map fst (per_org st0))" by simp
    with kv col(2) have "map_of (per_org st0) (fst kv) = Some (snd kv)" by simp
    with e have "snd kv = snd c" by simp
    with analyze_org_from_zero(9) [OF run t]
    show "\<exists>n. repos_contributed (snd kv) = RepoCount n" by auto
  qed
qed

lemma clash_run:
  "map_option fst (get_user_stats clash_host 2 ''alice'' (fresh [''a-b'', ''a_b''])) =
     Some (Inr clash_record)"
  by (simp add: stats_defs eval_defs quota_defs host_defs clash_host_def clash_record_def)

section \<open>Pull requests counted from the query result\<close>

lemma spec_classes_apart:
  "\<not> (spec_open pr \<and> spec_merged pr)"
  by (auto simp: spec_open_def spec_merged_def)

lemma pr_classes_apart:
  "length (filter spec_merged prs) + length (filter spec_open prs)
     + length (filter spec_closed_unmerged prs) \<le> length prs"
  by (induction prs) (auto simp: spec_merged_def spec_open_def spec_closed_unmerged_def)

lemma count_pr_counts:
  assumes "count_pr org pr c = Inr c'"
  shows "pr_counts (snd c') =
           (pr_total (snd c),
            pr_merged (snd c) + (if spec_merged pr then 1 else 0),
            pr_open (snd c) + (if spec_open pr then 1 else 0))"
proof -
  from assms obtain c1 where c1: "classify_pr pr c = Inr c1" and r: "add_repo org pr c1 = Inr c'"
    by (auto simp: count_pr_def then_do_eq_Inr)
  from classify_pr_spec [OF c1] spec_classes_apart [of pr] show ?thesis
    by (auto simp: pr_counts_def add_repo_counts [OF r])
qed

lemma for_each_count_pr_counts:
  "for_each (count_pr org) prs c = Inr c' \<Longrightarrow>
     pr_counts (snd c') =
       (pr_total (snd c),
        pr_merged (snd c) + length (filter spec_merged prs),
        pr_open (snd c) + length (filter spec_open prs))"
proof (induction prs arbitrary: c)
  case Nil
  then show ?case by (simp add: pr_counts_def)
next
  case (Cons pr prs)
  from Cons.prems obtain c1 where a: "count_pr org pr c = Inr c1"
    and b: "for_each (count_pr org) prs c1 = Inr c'"
    by (auto simp: then_do_eq_Inr)
  from count_pr_counts [OF a] Cons.IH [OF b] show ?case by (simp add: pr_counts_def)
qed

lemma py_len_iter: "py_len v = Inr n \<Longrightarrow> py_iter v = Inr xs \<Longrightarrow> n = length xs"
  by (cases v) auto

lemma authored_prs_later:
  assumes "keeps s s'" and "cache s (search_url ''author'' user org ''pr'' (time_filter s)) = Some v"
  shows "authored_prs user org s' = authored_prs user org s"
proof -
  from assms(1) have tf: "time_filter s' = time_filter s" and le: "cache s \<subseteq>\<^sub>m cache s'"
    by (simp_all add: keeps_def config_def)
  from le assms(2) have "cache s' (search_url ''author'' user org ''pr'' (time_filter s)) = Some v"
    by (auto simp: map_le_def dom_def)
  with assms(2) tf show ?thesis by (simp add: authored_prs_def)
qed

lemma count_prs_counts:
  assumes "count_prs net fuel user org c s = Some (Inr c', s')" and "pr_counts (snd c) = (0, 0, 0)"
  shows "pr_counts (snd c') =
           (length (authored_prs user org s'),
            length (filter spec_merged (authored_prs user org s')),
            length (filter spec_open (authored_prs user org s')))"
    and "\<exists>v. cache s' (search_url ''author'' user org ''pr'' (time_filter s')) = Some v"
proof -
  let ?url = "search_url ''author'' user org ''pr'' (time_filter s)"
  from assms(1) obtain pr_data found where
    q: "paginated_request net fuel ?url s = Some (Inr pr_data, s')"
    and f: "items_of pr_data = Inr found"
    and p: "(case found of
               None \<Rightarrow> Inr c
             | Some pr_items \<Rightarrow>
                 then_do (py_len pr_items) (\<lambda>n.
                   then_do (py_iter pr_items) (\<lambda>prs.
                     for_each (count_pr org) prs
                       ((fst c)\<lparr>pr_total := pr_total (fst c) + n\<rparr>,
                        (snd c)\<lparr>pr_total := n\<rparr>)))) = Inr c'"
    unfolding count_prs_def and_then_Inr lift_Inr then_do_eq_Inr by blast
  from paginated_request_keeps [OF q] have tf: "time_filter s' = time_filter s"
    by (simp add: keeps_def config_def)
  from paginated_request_cache [OF q] have look: "cache s' ?url = Some pr_data" by simp
  with tf show "\<exists>v. cache s' (search_url ''author'' user org ''pr'' (time_filter s')) = Some v"
    by simp
  show "pr_counts (snd c') =
           (length (authored_prs user org s'),
            length (filter spec_merged (authored_prs user org s')),
            length (filter spec_open (authored_prs user org s')))"
  proof (cases found)
    case None
    with p f look tf assms(2) show ?thesis by (simp add: authored_prs_def)
  next
    case (Some pr_items)
    with p obtain n prs where n: "py_len pr_items = Inr n" and i: "py_iter pr_items = Inr prs"
      and l: "for_each (count_pr org) prs
            ((fst c)\<lparr>pr_total := pr_total (fst c) + n\<rparr>, (snd c)\<lparr>pr_total := n\<rparr>) = Inr c'"
      by (auto simp: then_do_eq_Inr)
    from f Some i look tf have a: "authored_prs user org s' = prs" by (simp add: authored_prs_def)
    from for_each_count_pr_counts [OF l] assms(2) py_len_iter [OF n i] a show ?thesis
      by (simp add: pr_counts_def)
  qed
qed

lemma add_repo_pr_counts: "add_repo org item c = Inr c' \<Longrightarrow> pr_counts (snd c') = pr_counts (snd c)"
  by (simp add: pr_counts_def add_repo_counts)

lemma count_issue_pr_counts:
  assumes "count_issue org issue c = Inr c'"
  shows "pr_counts (snd c') = pr_counts (snd c)"
proof -
  from assms obtain st where
    "add_repo org issue
          (if st = JStr ''closed'' then
             ((fst c)\<lparr>issues_closed := issues_closed (fst c) + 1\<rparr>,
              (snd c)\<lparr>issues_closed := issues_closed (snd c) + 1\<rparr>)
           else c) = Inr c'"
    by (auto simp: count_issue_def then_do_eq_Inr)
  from add_repo_pr_counts [OF this] show ?thesis by (simp add: pr_counts_def split: if_splits)
qed

lemma for_each_count_issue_pr_counts:
  "for_each (count_issue org) issues c = Inr c' \<Longrightarrow> pr_counts (snd c') = pr_counts (snd c)"
proof (induction issues arbitrary: c)
  case Nil
  then show ?case by simp
next
  case (Cons issue issues)
  from Cons.prems obtain c1 where a: "count_issue org issue c = Inr c1"
    and b: "for_each (count_issue org) issues c1 = Inr c'"
    by (auto simp: then_do_eq_Inr)
  from count_issue_pr_counts [OF a] Cons.IH [OF b] show ?case by simp
qed

lemma count_issues_pr_counts:
  assumes "count_issues net fuel user org c s = Some (Inr c', s')"
  shows "pr_counts (snd c') = pr_counts (snd c)"
proof -
  from assms obtain issues_data found where
    p: "(case found of
               None \<Rightarrow> Inr c
             | Some issue_items \<Rightarrow>
                 then_do (py_len issue_items) (\<lambda>n.
                   then_do (py_iter issue_items) (\<lambda>issues.
                     for_each (count_issue org) issues
                       ((fst c)\<lparr>issues_opened := issues_opened (fst c) + n\<rparr>,
                        (snd c)\<lparr>issues_opened := n\<rparr>)))) = Inr c'"
    unfolding count_issues_def and_then_Inr lift_Inr then_do_eq_Inr by blast
  show ?thesis
  proof (cases found)
    case None
    with p show ?thesis by simp
  next
    case (Some issue_items)
    with p obtain n issues where
      l: "for_each (count_issue org) issues
            ((fst c)\<lparr>issues_opened := issues_opened (fst c) + n\<rparr>,
             (snd c)\<lparr>issues_opened := n\<rparr>) = Inr c'"
      by (auto simp: then_do_eq_Inr)
    from for_each_count_issue_pr_counts [OF l] show ?thesis by (simp add: pr_counts_def)
  qed
qed

lemma count_batch_pr_counts:
  "count_batch net fuel user org batch c s = Some (Inr c', s') \<Longrightarrow>
     pr_counts (snd c') = pr_counts (snd c)"
proof (induction batch arbitrary: c s)
  case Nil
  then show ?case by simp
next
  case (Cons repo_name batch)
  from Cons.prems obtain repo_commits s1 where
    r: "count_batch net fuel user org batch
          (case repo_commits of
             JList xs \<Rightarrow>
               ((fst c)\<lparr>commits := commits (fst c) + length xs\<rparr>,
                (snd c)\<lparr>commits := commits (snd c) + length xs\<rparr>)
           | _ \<Rightarrow> c) s1 = Some (Inr c', s')"
    unfolding count_batch.simps and_then_Inr by blast
  from Cons.IH [OF r] show ?case by (cases repo_commits) (simp_all add: pr_counts_def)
qed

lemma count_commits_pr_counts:
  "count_commits net fuel user org repo_list c s = Some (Inr c', s') \<Longrightarrow>
     pr_counts (snd c') = pr_counts (snd c)"
proof (induction net fuel user org repo_list c s rule: count_commits.induct)
  case (1 net fuel user org repo_list c s)
  show ?case
  proof (cases "repo_list = []")
    case True
    with "1.prems" show ?thesis by (simp add: count_commits.simps)
  next
    case False
    with "1.prems"(1) obtain c1 s1 where
      b: "count_batch net fuel user org (take 3 repo_list) c s = Some (Inr c1, s1)"
      and r: "count_commits net fuel user org (drop 3 repo_list) c1
                (wait_for_rate_limit net (update_rate_limit_info net s1)) = Some (Inr c', s')"
      by (subst (asm) count_commits.simps) (auto simp: and_then_Inr simp del: count_commits.simps)
    from count_batch_pr_counts [OF b] "1.IH" [OF False r] show ?thesis by simp
  qed
qed

lemma count_reviews_pr_counts:
  assumes "count_reviews net fuel user org c s = Some (Inr c', s')"
  shows "pr_counts (snd c') = pr_counts (snd c)"
proof -
  from assms obtain review_data found where
    p: "(case found of
               None \<Rightarrow> Inr c
             | Some items \<Rightarrow>
                 then_do (py_len items) (\<lambda>n.
                   Inr ((fst c)\<lparr>reviews_submitted := reviews_submitted (fst c) + n\<rparr>,
                        (snd c)\<lparr>reviews_submitted := n\<rparr>))) = Inr c'"
    unfolding count_reviews_def and_then_Inr lift_Inr then_do_eq_Inr by blast
  then show ?thesis
    by (cases found) (auto simp: then_do_eq_Inr pr_counts_def)
qed

lemma count_comments_pr_counts:
  assumes "count_comments net fuel user org c s = Some (Inr c', s')"
  shows "pr_counts (snd c') = pr_counts (snd c)"
proof -
  from assms obtain n where
    "c' = ((fst c)\<lparr>issues_commented := issues_commented (fst c) + n\<rparr>,
           (snd c)\<lparr>issues_commented := n\<rparr>)"
    unfolding count_comments_def and_then_Inr lift_Inr then_do_eq_Inr by blast
  then show ?thesis by (simp add: pr_counts_def)
qed

lemma analyze_org_pr_counts:
  assumes "analyze_org net fuel user org c s = Some (Inr c', s')"
    and "pr_counts (snd c) = (0, 0, 0)" and "keeps s' s2"
  shows "pr_counts (snd c') =
           (length (authored_prs user org s2),
            length (filter spec_merged (authored_prs user org s2)),
            length (filter spec_open (authored_prs user org s2)))"
proof -
  from assms(1) obtain c1 s1 c2 s3 repo_list c3 s4 c4 s5 c5 o6 where
    st: "count_prs net fuel user org c s = Some (Inr c1, s1)"
      "count_issues net fuel user org c1 s1 = Some (Inr c2, s3)"
      "count_commits net fuel user org repo_list c2 s3 = Some (Inr c3, s4)"
      "count_reviews net fuel user org c3 s4 = Some (Inr c4, s5)"
      "count_comments net fuel user org c4 s5 = Some (Inr c5, s')"
    and col: "collapse_repos (snd c5) = Inr o6" "c' = (fst c5, o6)"
    unfolding analyze_org_def and_then_Inr lift_Inr then_do_eq_Inr by blast
  note a = count_prs_counts [OF st(1) assms(2)]
  from a(2) obtain v where v: "cache s1 (search_url ''author'' user org ''pr'' (time_filter s1)) = Some v"
    by blast
  have "keeps s1 s2"
    using count_issues_keeps [OF st(2)] count_commits_keeps [OF st(3)]
      count_reviews_keeps [OF st(4)] count_comments_keeps [OF st(5)] assms(3)
    by (blast intro: keeps_trans)
  from authored_prs_later [OF this v] have same: "authored_prs user org s2 = authored_prs user org s1" .
  from col(1) have "pr_counts o6 = pr_counts (snd c5)"
    by (auto simp: collapse_repos_def pr_counts_def split: repos.splits)
  with col(2) count_issues_pr_counts [OF st(2)] count_commits_pr_counts [OF st(3)]
    count_reviews_pr_counts [OF st(4)] count_comments_pr_counts [OF st(5)] a(1) same
  show ?thesis by simp
qed

lemma org_sum_by_key:
  "\<forall>kv \<in> set tb. f (snd kv) = g (fst kv) \<Longrightarrow> org_sum f tb = sum_list (map g (map fst tb))"
  by (induction tb) (simp_all add: org_sum_def)

lemma collect_stats_pr_counts:
  assumes "collect_stats net fuel user s = Some (Inr st, s')" and "kv \<in> set (per_org st)"
  shows "pr_counts (snd kv) =
           (length (authored_prs user (fst kv) s'),
            length (filter spec_merged (authored_prs user (fst kv) s')),
            length (filter spec_open (authored_prs user (fst kv) s')))"
proof -
  let ?orgs = "organizations s"
  from assms(1) obtain st0 k where
    ao: "analyze_orgs net fuel ?orgs (initial_stats user ?orgs) s = Some (Inr st0, s')"
    and col: "st = st0\<lparr>overall := k\<rparr>"
    unfolding collect_stats_Inr by blast
  have sub: "set ?orgs \<subseteq> fst ` set (per_org (initial_stats user ?orgs))"
    by (simp add: initial_stats_def initial_keys)
  note sh = collect_stats_shape(1,2) [OF assms(1)]
  from sh(1) assms(2) have mem: "fst kv \<in> set ?orgs" by (metis image_eqI list.set_map)
  from analyze_orgs_entries [OF ao consistent_initial sub mem] obtain t all0 s0 s1 c where
    run: "analyze_org net fuel (username (initial_stats user ?orgs)) (fst kv) (t, zero_counters) s0
            = Some (Inr c, s1)"
    and e: "map_of (per_org st0) (fst kv) = Some (snd c)"
    and k: "keeps s1 s'"
    by blast
  from sh have "distinct (map fst (per_org st))" by simp
  with assms(2) have "map_of (per_org st) (fst kv) = Some (snd kv)" by simp
  with col e have same: "snd kv = snd c" by simp
  from run have "analyze_org net fuel user (fst kv) (t, zero_counters) s0 = Some (Inr c, s1)"
    by (simp add: initial_stats_def)
  from analyze_org_pr_counts [OF this _ k] same show ?thesis by (simp add: pr_counts_def)
qed

lemma three_pr_run:
  "\<exists>d s'. get_user_stats three_pr_host 2 ''alice'' (fresh [''acme'']) = Some (Inr d, s')
      \<and> authored_prs ''alice'' ''acme'' s' = [merged_pr, rejected_pr, open_pr]"
  by (simp add: stats_defs eval_defs quota_defs host_defs authored_prs_def search_url_def
        items_of_def base_url_def three_pr_host_def open_pr_def)

section \<open>The quota tracker\<close>

text \<open>
  Claim C3, as amended. When fewer than 10 requests remain and the clock is before the reset
  time, \<^verbatim>\<open>wait_for_rate_limit\<close> sleeps \<open>reset - now + 5\<close> seconds, so that it returns at
  \<open>reset + 5\<close>, and then refreshes the quota with one request to the quota endpoint. When
  fewer than 10 requests remain and the reset time has been reached, it returns at once:
  it neither sleeps nor refreshes the quota.
\<close>

theorem wait_for_rate_limit_low:
  assumes "rate_limit_remaining s < 10"
  shows "(now s < rate_limit_reset s \<longrightarrow>
            wait_for_rate_limit net s =
              update_rate_limit_info net (sleep (rate_limit_reset s - now s + 5) s)
            \<and> now (wait_for_rate_limit net s) = rate_limit_reset s + 5
            \<and> reqs (wait_for_rate_limit net s) = Suc (reqs s)
            \<and> (\<exists>evs. trace (wait_for_rate_limit net s) =
                   trace s @ Sleep (rate_limit_reset s - now s + 5)
                     # Request (base_url @ ''/rate_limit'') # evs))
       \<and> (rate_limit_reset s \<le> now s \<longrightarrow> wait_for_rate_limit net s = s)"
proof -
  have "\<exists>evs. trace (update_rate_limit_info net (sleep (rate_limit_reset s - now s + 5) s)) =
          trace s @ Sleep (rate_limit_reset s - now s + 5)
            # Request (base_url @ ''/rate_limit'') # evs"
    using update_rate_limit_info_trace [of net "sleep (rate_limit_reset s - now s + 5) s"]
    by simp
  with assms show ?thesis
    by (simp add: wait_for_rate_limit_def Let_def)
qed

theorem wait_for_rate_limit_low_witness:
  "rate_limit_remaining before_reset < 10
   \<and> now before_reset < rate_limit_reset before_reset
   \<and> now (wait_for_rate_limit (script_net []) before_reset) = 1105
   \<and> reqs (wait_for_rate_limit (script_net []) before_reset) = 1
   \<and> rate_limit_remaining past_reset < 10
   \<and> rate_limit_reset past_reset \<le> now past_reset
   \<and> wait_for_rate_limit (script_net []) past_reset = past_reset"
proof -
  have a: "rate_limit_remaining before_reset < 10" "now before_reset < rate_limit_reset before_reset"
    "rate_limit_reset before_reset = 1100" "reqs before_reset = 0"
    by (simp_all add: before_reset_def fresh_def)
  have b: "rate_limit_remaining past_reset < 10" "rate_limit_reset past_reset \<le> now past_reset"
    by (simp_all add: past_reset_def fresh_def)
  from wait_for_rate_limit_low [OF a(1), of "script_net []"] a
    wait_for_rate_limit_low [OF b(1), of "script_net []"] b
  show ?thesis by simp
qed

theorem wait_for_rate_limit_counterexample:
  "rate_limit_remaining past_reset < 10
   \<and> now (wait_for_rate_limit (script_net []) past_reset) < rate_limit_reset past_reset + 5
   \<and> reqs (wait_for_rate_limit (script_net []) past_reset) = reqs past_reset
   \<and> trace (wait_for_rate_limit (script_net []) past_reset) = trace past_reset"
  by (simp add: wait_for_rate_limit_def past_reset_def fresh_def)

section \<open>The paginated fetcher\<close>



text \<open>
  Claim C8. A page request that fails at network level is repeated, after a sleep of
  \<open>2 ^ attempt\<close> seconds: as long as at most three requests in a row have failed, the loop
  goes on with the same page, the same accumulated result and the retry count raised, after
  sleeps of 2, 4 and 8 seconds. A fourth failure in a row makes the call fail with the
  network error of that last request.
\<close>

theorem network_error_retries:
  assumes "next_url \<noteq> []" and "\<And>i. i < k \<Longrightarrow> net (reqs s + i) = ConnError (msg i)"
  shows "(k \<le> 3 \<longrightarrow>
            fetch_pages net (k + fuel) url next_url results 0 s =
            fetch_pages net fuel url next_url results k (retried next_url msg k s))
       \<and> (k = 4 \<longrightarrow>
            fetch_pages net (k + fuel) url next_url results 0 s =
            Some (Inl (NetworkError (msg 3)),
                  log_error (''Max retries exceeded for '' @ url)
                    (log_error (''Network error: '' @ msg 3)
                       (requested next_url (retried next_url msg 3 s)))))
       \<and> trace (retried next_url msg 3 s) =
            trace s @ [Request next_url, LogError (''Network error: '' @ msg 0), Sleep 2,
                       Request next_url, LogError (''Network error: '' @ msg 1), Sleep 4,
                       Request next_url, LogError (''Network error: '' @ msg 2), Sleep 8]"
proof (intro conjI impI)
  assume "k \<le> 3"
  with assms show "fetch_pages net (k + fuel) url next_url results 0 s =
      fetch_pages net fuel url next_url results k (retried next_url msg k s)"
    by (intro retried_run) simp_all
next
  assume k: "k = 4"
  have "fetch_pages net (3 + Suc fuel) url next_url results 0 s =
        fetch_pages net (Suc fuel) url next_url results 3 (retried next_url msg 3 s)"
    using assms k by (intro retried_run) simp_all
  moreover have "net (reqs (retried next_url msg 3 s)) = ConnError (msg 3)"
    using assms(2) [of 3] k by simp
  ultimately show "fetch_pages net (k + fuel) url next_url results 0 s =
            Some (Inl (NetworkError (msg 3)),
                  log_error (''Max retries exceeded for '' @ url)
                    (log_error (''Network error: '' @ msg 3)
                       (requested next_url (retried next_url msg 3 s))))"
    using give_up_step [OF assms(1), of net "retried next_url msg 3 s" "msg 3" 3 fuel url results] k
    by simp
next
  show "trace (retried next_url msg 3 s) =
            trace s @ [Request next_url, LogError (''Network error: '' @ msg 0), Sleep 2,
                       Request next_url, LogError (''Network error: '' @ msg 1), Sleep 4,
                       Request next_url, LogError (''Network error: '' @ msg 2), Sleep 8]"
    by (simp add: numeral_3_eq_3 numeral_2_eq_2)
qed

theorem network_error_retries_witness:
  "map_option fst (paginated_request (script_net []) 4 ''u'' (fresh [])) =
     Some (Inl (NetworkError ''unreachable''))
   \<and> map_option (trace \<circ> snd) (paginated_request (script_net []) 4 ''u'' (fresh [])) =
     Some [Request ''u'', LogError ''Network error: unreachable'', Sleep 2,
           Request ''u'', LogError ''Network error: unreachable'', Sleep 4,
           Request ''u'', LogError ''Network error: unreachable'', Sleep 8,
           Request ''u'', LogError ''Network error: unreachable'',
           LogError ''Max retries exceeded for u'']"
proof -
  have nonempty: "''u'' \<noteq> []" by simp
  have dead: "\<And>i. i < 4 \<Longrightarrow> script_net [] (reqs (fresh []) + i) = ConnError ''unreachable''"
    by (simp add: script_net_def)
  have start: "paginated_request (script_net []) 4 ''u'' (fresh []) =
      fetch_pages (script_net []) (4 + 0) ''u'' ''u'' JNull 0 (fresh [])"
    by (simp add: paginated_request.simps wait_for_rate_limit_def fresh_def)
  from network_error_retries
      [of "''u''" 4 "script_net []" "fresh []" "\<lambda>i. ''unreachable''" 0 "''u''" JNull]
    nonempty dead start
  show ?thesis by (simp add: fresh_def)
qed

text \<open>
  Claim C2, as amended. Let a page response have status 403 and the rate-limit phrase in its
  text, compared without regard to case, and let \<open>wait_time\<close> be \<open>reset - now + 5\<close> after the
  quota headers of the response have been noted. If \<open>wait_time\<close> is not positive, the call
  refreshes the quota and fails with the request error for status 403. If \<open>wait_time\<close> is
  positive, the call sleeps that long and calls \<^verbatim>\<open>_paginated_request\<close> again with the
  original URL, whatever page and accumulated result it had reached. What the restarted call
  returns or raises, the call returns or raises, except for a network error: that one is
  caught by the handler of lines 594 to 604 of the calling loop, which with fewer than three
  retries used backs off and requests the current page again, keeping the accumulated
  result, and with three retries used raises the network error. A restarted call that does
  not end leaves the call without end.
\<close>

theorem quota_exceeded_restart_or_fail:
  assumes "next_url \<noteq> []" and "net (reqs s) = Response r" and "status_code r = 403"
    and "contains ''rate limit exceeded'' (lower (body_text r))"
    and "s2 = note_headers r (requested next_url s)"
    and "wait_time = rate_limit_reset s2 - now s2 + 5"
    and "restarted = paginated_request net fuel url (sleep wait_time s2)"
  shows "(wait_time \<le> 0 \<longrightarrow>
            fetch_pages net (Suc fuel) url next_url results retry_count s =
            Some (Inl (RequestFailed 403 (body_text r)), update_rate_limit_info net s2))
       \<and> (0 < wait_time \<longrightarrow>
            (\<forall>res s3. restarted = Some (res, s3) \<longrightarrow> (\<forall>msg. res \<noteq> Inl (NetworkError msg)) \<longrightarrow>
               fetch_pages net (Suc fuel) url next_url results retry_count s = Some (res, s3))
          \<and> (\<forall>msg s3. restarted = Some (Inl (NetworkError msg), s3) \<longrightarrow>
               (retry_count < 3 \<longrightarrow>
                  fetch_pages net (Suc fuel) url next_url results retry_count s =
                  fetch_pages net fuel url next_url results (retry_count + 1)
                    (sleep (2 ^ (retry_count + 1)) (log_error (''Network error: '' @ msg) s3)))
             \<and> (3 \<le> retry_count \<longrightarrow>
                  fetch_pages net (Suc fuel) url next_url results retry_count s =
                  Some (Inl (NetworkError msg),
                        log_error (''Max retries exceeded for '' @ url)
                          (log_error (''Network error: '' @ msg) s3))))
          \<and> (restarted = None \<longrightarrow>
               fetch_pages net (Suc fuel) url next_url results retry_count s = None))"
proof -
  have low: "request_page net next_url results s =
      Raise (RequestFailed 403 (body_text r)) (update_rate_limit_info net s2)"
    if "wait_time \<le> 0"
    using that assms(2-6) by (simp add: request_page_quota)
  have high: "request_page net next_url results s = Restart (sleep wait_time s2)"
    if "0 < wait_time"
    using that assms(2-6) by (simp add: request_page_quota)
  show ?thesis
  proof (intro conjI impI allI)
    assume "wait_time \<le> 0"
    with low assms(1)
    show "fetch_pages net (Suc fuel) url next_url results retry_count s =
            Some (Inl (RequestFailed 403 (body_text r)), update_rate_limit_info net s2)"
      by simp
  next
    fix res s3
    assume w: "0 < wait_time" and "restarted = Some (res, s3)"
      and ne: "\<forall>msg. res \<noteq> Inl (NetworkError msg)"
    with assms(7) have "paginated_request net fuel url (sleep wait_time s2) = Some (res, s3)"
      by simp
    with high [OF w] assms(1) ne
    show "fetch_pages net (Suc fuel) url next_url results retry_count s = Some (res, s3)"
      by (auto split: sum.splits error.splits)
  next
    fix msg s3
    assume w: "0 < wait_time" and "restarted = Some (Inl (NetworkError msg), s3)"
      and rc: "retry_count < 3"
    with assms(7) have "paginated_request net fuel url (sleep wait_time s2) =
        Some (Inl (NetworkError msg), s3)"
      by simp
    with high [OF w] assms(1) rc
    show "fetch_pages net (Suc fuel) url next_url results retry_count s =
            fetch_pages net fuel url next_url results (retry_count + 1)
              (sleep (2 ^ (retry_count + 1)) (log_error (''Network error: '' @ msg) s3))"
      by (simp add: on_network_error_def Let_def)
  next
    fix msg s3
    assume w: "0 < wait_time" and "restarted = Some (Inl (NetworkError msg), s3)"
      and rc: "3 \<le> retry_count"
    with assms(7) have "paginated_request net fuel url (sleep wait_time s2) =
        Some (Inl (NetworkError msg), s3)"
      by simp
    with high [OF w] assms(1) rc
    show "fetch_pages net (Suc fuel) url next_url results retry_count s =
            Some (Inl (NetworkError msg),
                  log_error (''Max retries exceeded for '' @ url)
                    (log_error (''Network error: '' @ msg) s3))"
      by (simp add: on_network_error_def Let_def)
  next
    assume w: "0 < wait_time" and "restarted = None"
    with assms(7) have "paginated_request net fuel url (sleep wait_time s2) = None" by simp
    with high [OF w] assms(1)
    show "fetch_pages net (Suc fuel) url next_url results retry_count s = None"
      by simp
  qed
qed

text \<open>
  Three runs from the second page of a query with the accumulated result \<open>[7]\<close>: the
  restarted call succeeds and its result \<open>[1]\<close> is returned; the reset time has passed and
  the call fails; the restarted call fails at network level four times, after which the
  second page is requested again and its content joins the accumulated result.
\<close>

theorem quota_exceeded_restart_or_fail_witness:
  "map_option fst
     (fetch_pages (script_net [Response (quota_exceeded 1010), ok_response (JList [JNum 1])]) 3
        ''u'' ''u?page=2'' (JList [JNum 7]) 0 (fresh [])) = Some (Inr (JList [JNum 1]))
   \<and> map_option fst
     (fetch_pages (script_net [Response (quota_exceeded 990)]) 3
        ''u'' ''u?page=2'' (JList [JNum 7]) 0 (fresh [])) =
       Some (Inl (RequestFailed 403 ''API rate limit exceeded for user''))
   \<and> map_option fst
     (fetch_pages failing_restart 8 ''u'' ''u?page=2'' (JList [JNum 7]) 0 (fresh [])) =
       Some (Inr (JList [JNum 7, JNum 8]))"
proof -
  let ?net = "script_net [Response (quota_exceeded 1010), ok_response (JList [JNum 1])]"
  let ?s2 = "note_headers (quota_exceeded 1010) (requested ''u?page=2'' (fresh []))"
  let ?w = "rate_limit_reset ?s2 - now ?s2 + 5"
  define s3 where "s3 = snd (the (paginated_request ?net 2 ''u'' (sleep ?w ?s2)))"
  have w: "0 < ?w" by (simp add: note_headers_def quota_exceeded_def fresh_def requested_def emit_def)
  have r1: "?net (reqs (fresh [])) = Response (quota_exceeded 1010)"
    by (simp add: script_net_def fresh_def)
  have restart: "paginated_request ?net 2 ''u'' (sleep ?w ?s2) = Some (Inr (JList [JNum 1]), s3)"
    unfolding s3_def by (simp add: eval_defs quota_exceeded_def sleep_def)
  have a: "fetch_pages ?net (Suc 2) ''u'' ''u?page=2'' (JList [JNum 7]) 0 (fresh []) =
             Some (Inr (JList [JNum 1]), s3)"
    using quota_exceeded_restart_or_fail
      [of "''u?page=2''" ?net "fresh []" "quota_exceeded 1010" ?s2 ?w
          "paginated_request ?net 2 ''u'' (sleep ?w ?s2)" 2 "''u''" "JList [JNum 7]" 0]
      r1 quota_phrase [of 1010] w restart
    by (simp add: quota_exceeded_def)
  let ?net' = "script_net [Response (quota_exceeded 990)]"
  let ?t2 = "note_headers (quota_exceeded 990) (requested ''u?page=2'' (fresh []))"
  let ?v = "rate_limit_reset ?t2 - now ?t2 + 5"
  have v: "?v \<le> 0" by (simp add: note_headers_def quota_exceeded_def fresh_def requested_def emit_def)
  have r2: "?net' (reqs (fresh [])) = Response (quota_exceeded 990)"
    by (simp add: script_net_def fresh_def)
  have b: "fetch_pages ?net' (Suc 2) ''u'' ''u?page=2'' (JList [JNum 7]) 0 (fresh []) =
             Some (Inl (RequestFailed 403 (body_text (quota_exceeded 990))),
                   update_rate_limit_info ?net' ?t2)"
    using quota_exceeded_restart_or_fail
      [of "''u?page=2''" ?net' "fresh []" "quota_exceeded 990" ?t2 ?v
          "paginated_request ?net' 2 ''u'' (sleep ?v ?t2)" 2 "''u''" "JList [JNum 7]" 0]
      r2 quota_phrase [of 990] v
    by (simp add: quota_exceeded_def)
  let ?down = failing_restart
  define s4 where "s4 = snd (the (paginated_request ?down 7 ''u'' (sleep ?w ?s2)))"
  have r3: "?down (reqs (fresh [])) = Response (quota_exceeded 1010)"
    by (simp add: failing_restart_def script_net_def fresh_def)
  have failed: "paginated_request ?down 7 ''u'' (sleep ?w ?s2) =
      Some (Inl (NetworkError ''down''), s4)"
    unfolding s4_def by (simp add: eval_defs run_defs)
  have "fetch_pages ?down (Suc 7) ''u'' ''u?page=2'' (JList [JNum 7]) 0 (fresh []) =
          fetch_pages ?down 7 ''u'' ''u?page=2'' (JList [JNum 7]) (0 + 1)
            (sleep (2 ^ (0 + 1)) (log_error (''Network error: '' @ ''down'') s4))"
    using quota_exceeded_restart_or_fail
      [of "''u?page=2''" ?down "fresh []" "quota_exceeded 1010" ?s2 ?w
          "paginated_request ?down 7 ''u'' (sleep ?w ?s2)" 7 "''u''" "JList [JNum 7]" 0]
      r3 quota_phrase [of 1010] w failed
    by (simp add: quota_exceeded_def)
  moreover have "map_option fst
        (fetch_pages ?down 7 ''u'' ''u?page=2'' (JList [JNum 7]) (0 + 1)
           (sleep (2 ^ (0 + 1)) (log_error (''Network error: '' @ ''down'') s4))) =
       Some (Inr (JList [JNum 7, JNum 8]))"
    unfolding s4_def by (simp add: eval_defs run_defs)
  ultimately have c: "map_option fst
     (fetch_pages ?down 8 ''u'' ''u?page=2'' (JList [JNum 7]) 0 (fresh [])) =
       Some (Inr (JList [JNum 7, JNum 8]))"
    by (simp add: eval_nat_numeral)
  from a b c show ?thesis by (simp add: numeral_3_eq_3 quota_exceeded_def)
qed

text \<open>
  Quota exhaustion can make a fetch fail, and a fetch can resume in the middle of a
  pagination. A response with status 403 and the rate-limit phrase whose reset time has
  passed makes the call fail. On \<open>resumed_host\<close> the first page \<open>[7]\<close> names a next page,
  the request for that page is refused for quota exhaustion, the restarted call fails at
  network level, and the calling loop then requests the next page again: the call returns
  \<open>[7, 8]\<close>.
\<close>

theorem quota_exceeded_counterexample:
  "map_option fst (paginated_request (script_net [Response (quota_exceeded 990)]) 1 ''u'' (fresh [])) =
     Some (Inl (RequestFailed 403 ''API rate limit exceeded for user''))
   \<and> map_option fst (paginated_request resumed_host 9 ''u'' (fresh [])) =
     Some (Inr (JList [JNum 7, JNum 8]))
   \<and> map_option (requests_of \<circ> trace \<circ> snd) (paginated_request resumed_host 9 ''u'' (fresh [])) =
     Some [''u'', ''next'', ''u'', ''u'', ''u'', ''u'', ''next'']"
proof -
  have "map_option fst
      (paginated_request (script_net [Response (quota_exceeded 990)]) 1 ''u'' (fresh [])) =
     Some (Inl (RequestFailed 403 ''API rate limit exceeded for user''))"
    by (simp add: eval_defs quota_exceeded_def lower_def lower_char_def update_rate_limit_info_def)
  moreover have "map_option fst (paginated_request resumed_host 9 ''u'' (fresh [])) =
     Some (Inr (JList [JNum 7, JNum 8]))"
    by (simp add: eval_defs run_defs)
  moreover have "map_option (requests_of \<circ> trace \<circ> snd)
      (paginated_request resumed_host 9 ''u'' (fresh [])) =
     Some [''u'', ''next'', ''u'', ''u'', ''u'', ''u'', ''next'']"
    by (simp add: eval_defs run_defs)
  ultimately show ?thesis by simp
qed

text \<open>
  Claim C9, as amended. When the accumulated result is a list and a later page with status
  200 is a dictionary with \<^verbatim>\<open>items\<close>, or the accumulated result is a dictionary with
  \<^verbatim>\<open>items\<close> and the later page is a list, and the list in question does not hold the bare
  string \<^verbatim>\<open>items\<close> as an element, the page is dropped: the accumulated result stays as it
  is, no error is raised, and the loop goes on with the next page named by the \<^verbatim>\<open>Link\<close>
  header.
\<close>

theorem mismatched_page_dropped:
  assumes "next_url \<noteq> []" and "net (reqs s) = Response r" and "status_code r = 200"
    and "next_link (split_on CHR '','' (hdr_link r)) = Inr next_url'"
    and "(\<exists>acc d. results = JList acc \<and> body r = JDict d \<and> ''items'' \<in> fst ` set d
                  \<and> JStr ''items'' \<notin> set acc)
         \<or> (\<exists>d xs. results = JDict d \<and> ''items'' \<in> fst ` set d \<and> body r = JList xs
                  \<and> JStr ''items'' \<notin> set xs)"
  shows "fetch_pages net (Suc fuel) url next_url results retry_count s =
         fetch_pages net fuel url next_url' results 0
           (if next_url' \<noteq> [] then wait_for_rate_limit net (note_headers r (requested next_url s))
            else note_headers r (requested next_url s))"
proof -
  from assms(5) have c: "combine results (body r) = Inr results"
  proof
    assume "\<exists>acc d. results = JList acc \<and> body r = JDict d \<and> ''items'' \<in> fst ` set d
                  \<and> JStr ''items'' \<notin> set acc"
    then obtain acc d where "results = JList acc" "body r = JDict d" "JStr ''items'' \<notin> set acc"
      by blast
    then show ?thesis by (simp add: combine_list_dict)
  next
    assume "\<exists>d xs. results = JDict d \<and> ''items'' \<in> fst ` set d \<and> body r = JList xs
                  \<and> JStr ''items'' \<notin> set xs"
    then obtain d xs where "results = JDict d" "''items'' \<in> fst ` set d" "body r = JList xs"
      "JStr ''items'' \<notin> set xs" by blast
    with combine_dict_list [of xs d] show ?thesis by simp
  qed
  from assms(5) have n: "results \<noteq> JNull" by auto
  from n have "init_results results (body r) = (results, False)"
    by (simp add: init_results_def)
  with c assms(3,4) have "check_page net r results (note_headers r (requested next_url s)) =
      Continue next_url' results
        (if next_url' \<noteq> [] then wait_for_rate_limit net (note_headers r (requested next_url s))
         else note_headers r (requested next_url s))"
    by (simp add: check_page_def)
  with assms(1,2,3) request_page_ok [of net s r next_url results] show ?thesis by simp
qed

theorem mismatched_page_counterexample:
  "map_option fst
     (paginated_request
        (script_net [page_with_next (JList [JStr ''items'']),
                     ok_response (JDict [(''items'', JList [])])]) 3 ''u'' (fresh [])) =
   Some (Inl (PyError ''TypeError''))"
  by (simp add: eval_defs page_with_next_def next_page_response_def extend_items_def)

theorem mismatched_page_dropped_witness:
  "map_option fst
     (paginated_request
        (script_net [page_with_next (JList [JNum 1]),
                     page_with_next (JDict [(''items'', JList [JNum 2])]),
                     ok_response (JList [JNum 3])]) 4 ''u'' (fresh [])) =
   Some (Inr (JList [JNum 1, JNum 3]))"
proof -
  let ?net = "script_net [page_with_next (JList [JNum 1]),
                     page_with_next (JDict [(''items'', JList [JNum 2])]),
                     ok_response (JList [JNum 3])]"
  let ?r = "next_page_response (JDict [(''items'', JList [JNum 2])])"
  define s1 where "s1 = requested ''u'' (fresh [])"
  have first: "paginated_request ?net 4 ''u'' (fresh []) =
               fetch_pages ?net (Suc 2) ''u'' ''next'' (JList [JNum 1]) 0 s1"
    unfolding s1_def
    by (simp add: eval_defs page_with_next_def next_page_response_def eval_nat_numeral)
  have r: "?net (reqs s1) = Response ?r" "status_code ?r = 200"
    "next_link (split_on CHR '','' (hdr_link ?r)) = Inr ''next''"
    "body ?r = JDict [(''items'', JList [JNum 2])]"
    unfolding s1_def
    by (simp_all add: script_net_def page_with_next_def next_page_response_def fresh_def
          requested_def emit_def rel_next_def)
  have shape: "(\<exists>acc d. JList [JNum 1] = JList acc \<and> body ?r = JDict d \<and> ''items'' \<in> fst ` set d
                  \<and> JStr ''items'' \<notin> set acc)
         \<or> (\<exists>d xs. JList [JNum 1] = JDict d \<and> ''items'' \<in> fst ` set d \<and> body ?r = JList xs
                  \<and> JStr ''items'' \<notin> set xs)"
    using r(4) by simp
  have nonempty: "''next'' \<noteq> []" by simp
  from mismatched_page_dropped
      [of "''next''" ?net s1 ?r "''next''" "JList [JNum 1]" 2 "''u''" 0] nonempty r(1,2,3) shape
  have "fetch_pages ?net (Suc 2) ''u'' ''next'' (JList [JNum 1]) 0 s1 =
        fetch_pages ?net 2 ''u'' ''next'' (JList [JNum 1]) 0
          (wait_for_rate_limit ?net (note_headers ?r (requested ''next'' s1)))"
    by simp
  also have "map_option fst \<dots> = Some (Inr (JList [JNum 1, JNum 3]))"
    unfolding s1_def
    by (simp add: eval_defs page_with_next_def next_page_response_def)
  finally show ?thesis using first by simp
qed

section \<open>The statistics aggregator\<close>

text \<open>
  Claim C6, as amended. Let \<^verbatim>\<open>get_user_stats\<close> return a record, let the prefixes of the
  configured organizations be pairwise different, and let \<open>prs\<close> be the pull requests that
  the authored-PRs query for one of the organizations has returned. Then in the record the
  \<^verbatim>\<open>pr_merged\<close> of the organization is the number of pull requests in \<open>prs\<close> whose state is
  \<^verbatim>\<open>closed\<close> and whose merge timestamp is not empty, its \<^verbatim>\<open>pr_open\<close> is the number of those
  whose state is \<^verbatim>\<open>open\<close>, and its \<^verbatim>\<open>pr_total\<close> is the number of all of them; and the
  overall \<^verbatim>\<open>pr_merged\<close>, \<^verbatim>\<open>pr_open\<close> and \<^verbatim>\<open>pr_total\<close> are these numbers added up over the
  organizations. The three classes have no pull request in common. So a closed pull request
  with a merge timestamp is counted as merged and not as open, an open one as open and not
  as merged, and a closed one without merge timestamp in \<^verbatim>\<open>pr_total\<close> only: the record has
  no counter of closed pull requests.
\<close>

theorem pr_classification:
  assumes "get_user_stats net fuel user s = Some (Inr d, s')"
    and "orgs = organizations s"
    and "distinct (map org_prefix orgs)"
    and "org \<in> set orgs"
    and "prs = authored_prs user org s'"
  shows "number_at d (org_prefix org @ ''pr_merged'') = Some (int (length (filter spec_merged prs)))
       \<and> number_at d (org_prefix org @ ''pr_open'') = Some (int (length (filter spec_open prs)))
       \<and> number_at d (org_prefix org @ ''pr_total'') = Some (int (length prs))
       \<and> number_at d ''pr_merged'' =
           Some (int (sum_list (map (\<lambda>org. length (filter spec_merged (authored_prs user org s'))) orgs)))
       \<and> number_at d ''pr_open'' =
           Some (int (sum_list (map (\<lambda>org. length (filter spec_open (authored_prs user org s'))) orgs)))
       \<and> number_at d ''pr_total'' =
           Some (int (sum_list (map (\<lambda>org. length (authored_prs user org s')) orgs)))
       \<and> length (filter spec_merged prs) + length (filter spec_open prs)
            + length (filter spec_closed_unmerged prs) \<le> length prs"
proof -
  from assms(1) obtain st where cs: "collect_stats net fuel user s = Some (Inr st, s')"
    and fl0: "flatten_orgs (organizations s') (per_org st) (top_items st) = Inr d"
    unfolding get_user_stats_Inr by blast
  from collect_stats_keeps [OF cs] have "organizations s' = organizations s"
    by (simp add: keeps_def config_def)
  with fl0 assms(2) have fl: "flatten_orgs orgs (per_org st) (top_items st) = Inr d" by simp
  note sh = collect_stats_shape [OF cs]
  from sh(1) assms(2) have keys: "map fst (per_org st) = orgs" by simp
  note pc = collect_stats_pr_counts [OF cs]
  from assms(3) have dis: "distinct orgs" by (simp add: distinct_map)
  from assms(4) keys obtain c where c: "(org, c) \<in> set (per_org st)"
    by (metis (no_types, opaque_lifting) fst_conv image_iff list.set_map prod.collapse)
  with dis keys have look: "map_of (per_org st) org = Some c" by simp
  from pc [OF c] assms(5) have
    v: "pr_total c = length prs" "pr_merged c = length (filter spec_merged prs)"
      "pr_open c = length (filter spec_open prs)"
    by (simp_all add: pr_counts_def)
  have a: "number_at d (org_prefix org @ ''pr_merged'') = Some (int (length (filter spec_merged prs)))"
    using flatten_at [OF fl assms(3,4) look counter_items_mem(2)] v by (simp add: number_at_def)
  have b: "number_at d (org_prefix org @ ''pr_open'') = Some (int (length (filter spec_open prs)))"
    using flatten_at [OF fl assms(3,4) look counter_items_mem(3)] v by (simp add: number_at_def)
  have t: "number_at d (org_prefix org @ ''pr_total'') = Some (int (length prs))"
    using flatten_at [OF fl assms(3,4) look counter_items_mem(1)] v by (simp add: number_at_def)
  have top: "map_of d k = map_of (top_items st) k" if "k \<in> set (''username'' # counter_keys)" for k
    using flatten_top [OF fl that] .
  have "org_sum pr_merged (per_org st) =
      sum_list (map (\<lambda>org. length (filter spec_merged (authored_prs user org s'))) (map fst (per_org st)))"
    by (rule org_sum_by_key) (use pc in \<open>simp add: pr_counts_def\<close>)
  with top [of "''pr_merged''"] sh(4) keys have a': "number_at d ''pr_merged'' =
      Some (int (sum_list (map (\<lambda>org. length (filter spec_merged (authored_prs user org s'))) orgs)))"
    by (simp add: number_at_def top_items_at counter_keys_def)
  have "org_sum pr_open (per_org st) =
      sum_list (map (\<lambda>org. length (filter spec_open (authored_prs user org s'))) (map fst (per_org st)))"
    by (rule org_sum_by_key) (use pc in \<open>simp add: pr_counts_def\<close>)
  with top [of "''pr_open''"] sh(5) keys have b': "number_at d ''pr_open'' =
      Some (int (sum_list (map (\<lambda>org. length (filter spec_open (authored_prs user org s'))) orgs)))"
    by (simp add: number_at_def top_items_at counter_keys_def)
  have "org_sum pr_total (per_org st) =
      sum_list (map (\<lambda>org. length (authored_prs user org s')) (map fst (per_org st)))"
    by (rule org_sum_by_key) (use pc in \<open>simp add: pr_counts_def\<close>)
  with top [of "''pr_total''"] sh(3) keys have t': "number_at d ''pr_total'' =
      Some (int (sum_list (map (\<lambda>org. length (authored_prs user org s')) orgs)))"
    by (simp add: number_at_def top_items_at counter_keys_def)
  from a b t a' b' t' pr_classes_apart [of prs] show ?thesis by simp
qed

text \<open>
  A user with a merged, a rejected and an open pull request in one organization.
\<close>

theorem pr_classification_witness:
  "\<exists>d s'. get_user_stats three_pr_host 2 ''alice'' (fresh [''acme'']) = Some (Inr d, s')
      \<and> distinct (map org_prefix [''acme''])
      \<and> authored_prs ''alice'' ''acme'' s' = [merged_pr, rejected_pr, open_pr]
      \<and> spec_merged merged_pr \<and> spec_closed_unmerged rejected_pr \<and> spec_open open_pr
      \<and> number_at d ''acme_pr_merged'' = Some 1
      \<and> number_at d ''acme_pr_open'' = Some 1
      \<and> number_at d ''acme_pr_total'' = Some 3
      \<and> number_at d ''pr_merged'' = Some 1
      \<and> number_at d ''pr_open'' = Some 1
      \<and> number_at d ''pr_total'' = Some 3"
proof -
  from three_pr_run obtain d s' where
    run: "get_user_stats three_pr_host 2 ''alice'' (fresh [''acme'']) = Some (Inr d, s')"
    and prs: "[merged_pr, rejected_pr, open_pr] = authored_prs ''alice'' ''acme'' s'"
    by auto
  have o: "[''acme''] = organizations (fresh [''acme''])" by (simp add: fresh_def)
  have dis: "distinct (map org_prefix [''acme''])" by simp
  have m: "spec_merged merged_pr" "\<not> spec_merged rejected_pr" "\<not> spec_merged open_pr"
    and r: "spec_closed_unmerged rejected_pr"
    and op: "spec_open open_pr" "\<not> spec_open merged_pr" "\<not> spec_open rejected_pr"
    by (simp_all add: spec_merged_def spec_closed_unmerged_def spec_open_def pr_state_def
          merge_timestamp_def merged_pr_def rejected_pr_def open_pr_def)
  have p: "org_prefix ''acme'' = ''acme_''" by (simp add: org_prefix_def)
  from pr_classification [OF run o dis _ prs] m r op prs [symmetric]
  have "number_at d ''acme_pr_merged'' = Some 1 \<and> number_at d ''acme_pr_open'' = Some 1
      \<and> number_at d ''acme_pr_total'' = Some 3 \<and> number_at d ''pr_merged'' = Some 1
      \<and> number_at d ''pr_open'' = Some 1 \<and> number_at d ''pr_total'' = Some 3"
    by (simp add: p)
  with run dis prs m r op show ?thesis by auto
qed

text \<open>
  A closed pull request whose field \<^verbatim>\<open>pull_request\<close> is \<^verbatim>\<open>null\<close> has no merge timestamp,
  and line 172 raises \<^verbatim>\<open>AttributeError\<close> on it: the analysis fails and nothing is counted.
  And the record of a user whose only pull request was closed without a merge counts it in
  \<^verbatim>\<open>pr_total\<close> and nowhere else.
\<close>

theorem pr_classification_counterexample:
  "spec_closed_unmerged null_pr
   \<and> map_option fst (get_user_stats (script_net [found [null_pr]]) 2 ''alice'' (fresh [''acme''])) =
       Some (Inl (PyError ''AttributeError''))
   \<and> spec_closed_unmerged rejected_pr
   \<and> map_option fst (get_user_stats rejected_host 2 ''alice'' (fresh [''acme''])) =
       Some (Inr rejected_record)"
proof -
  have "spec_closed_unmerged null_pr" "spec_closed_unmerged rejected_pr"
    by (simp_all add: spec_closed_unmerged_def pr_state_def merge_timestamp_def null_pr_def
          rejected_pr_def)
  moreover have "map_option fst
      (get_user_stats (script_net [found [null_pr]]) 2 ''alice'' (fresh [''acme''])) =
       Some (Inl (PyError ''AttributeError''))"
    by (simp add: stats_defs eval_defs quota_defs host_defs null_pr_def)
  moreover have "map_option fst (get_user_stats rejected_host 2 ''alice'' (fresh [''acme''])) =
       Some (Inr rejected_record)"
    by (simp add: stats_defs eval_defs quota_defs host_defs rejected_host_def rejected_record_def)
  ultimately show ?thesis by simp
qed

text \<open>
  Claim C7, as amended. Let \<^verbatim>\<open>get_user_stats\<close> return a record for organizations whose
  prefixes, the names with every \<^verbatim>\<open>-\<close> replaced by \<^verbatim>\<open>_\<close> and an underscore added, are
  pairwise different. Then every overall counter of the record (\<^verbatim>\<open>pr_total\<close>, \<^verbatim>\<open>pr_merged\<close>,
  \<^verbatim>\<open>pr_open\<close>, \<^verbatim>\<open>commits\<close>, \<^verbatim>\<open>issues_opened\<close>, \<^verbatim>\<open>issues_closed\<close>, \<^verbatim>\<open>issues_commented\<close>,
  \<^verbatim>\<open>reviews_submitted\<close>) is the sum of the counters that the record holds for the
  organizations under the prefixed keys, and the overall \<^verbatim>\<open>repos_contributed\<close> is at most
  the sum of the \<^verbatim>\<open>repos_contributed\<close> of the organizations.
\<close>

theorem overall_counters_are_sums:
  assumes "get_user_stats net fuel user s = Some (Inr d, s')"
    and "orgs = organizations s"
    and "distinct (map org_prefix orgs)"
  shows "is_sum d orgs ''pr_total'' \<and> is_sum d orgs ''pr_merged'' \<and> is_sum d orgs ''pr_open''
       \<and> is_sum d orgs ''commits'' \<and> is_sum d orgs ''issues_opened''
       \<and> is_sum d orgs ''issues_closed'' \<and> is_sum d orgs ''issues_commented''
       \<and> is_sum d orgs ''reviews_submitted'' \<and> at_most_sum d orgs ''repos_contributed''"
proof -
  from assms(1) obtain st where cs: "collect_stats net fuel user s = Some (Inr st, s')"
    and fl0: "flatten_orgs (organizations s') (per_org st) (top_items st) = Inr d"
    unfolding get_user_stats_Inr by blast
  from collect_stats_keeps [OF cs] have "organizations s' = organizations s"
    by (simp add: keeps_def config_def)
  with fl0 assms(2) have fl: "flatten_orgs orgs (per_org st) (top_items st) = Inr d" by simp
  note sh = collect_stats_shape [OF cs]
  from sh(1) assms(2) have keys: "map fst (per_org st) = orgs" by simp
  have top: "map_of d t = map_of (top_items st) t" if "t \<in> set (''username'' # counter_keys)" for t
    using flatten_top [OF fl that] .
  have tot: "org_total d orgs x = Some (int (org_sum f (per_org st)))"
    if "\<And>c. (x, JNum (int (f c))) \<in> set (counter_items c)" for x f
    using record_org_total [OF fl assms(3) keys that] .
  have "is_sum d orgs ''pr_total''"
    using top [of "''pr_total''"] tot [of "''pr_total''" pr_total] sh(3)
    by (simp add: is_sum_def number_at_def top_items_at counter_items_mem counter_keys_def)
  moreover have "is_sum d orgs ''pr_merged''"
    using top [of "''pr_merged''"] tot [of "''pr_merged''" pr_merged] sh(4)
    by (simp add: is_sum_def number_at_def top_items_at counter_items_mem counter_keys_def)
  moreover have "is_sum d orgs ''pr_open''"
    using top [of "''pr_open''"] tot [of "''pr_open''" pr_open] sh(5)
    by (simp add: is_sum_def number_at_def top_items_at counter_items_mem counter_keys_def)
  moreover have "is_sum d orgs ''commits''"
    using top [of "''commits''"] tot [of "''commits''" commits] sh(6)
    by (simp add: is_sum_def number_at_def top_items_at counter_items_mem counter_keys_def)
  moreover have "is_sum d orgs ''issues_opened''"
    using top [of "''issues_opened''"] tot [of "''issues_opened''" issues_opened] sh(7)
    by (simp add: is_sum_def number_at_def top_items_at counter_items_mem counter_keys_def)
  moreover have "is_sum d orgs ''issues_closed''"
    using top [of "''issues_closed''"] tot [of "''issues_closed''" issues_closed] sh(8)
    by (simp add: is_sum_def number_at_def top_items_at counter_items_mem counter_keys_def)
  moreover have "is_sum d orgs ''issues_commented''"
    using top [of "''issues_commented''"] tot [of "''issues_commented''" issues_commented] sh(9)
    by (simp add: is_sum_def number_at_def top_items_at counter_items_mem counter_keys_def)
  moreover have "is_sum d orgs ''reviews_submitted''"
    using top [of "''reviews_submitted''"] tot [of "''reviews_submitted''" reviews_submitted] sh(10)
    by (simp add: is_sum_def number_at_def top_items_at counter_items_mem counter_keys_def)
  moreover have "at_most_sum d orgs ''repos_contributed''"
  proof -
    from sh(11) obtain n where n: "repos_contributed (overall st) = RepoCount n"
      "n \<le> org_sum repo_count (per_org st)" by blast
    have "\<forall>kv \<in> set (per_org st).
            number_at d (org_prefix (fst kv) @ ''repos_contributed'') = Some (int (repo_count (snd kv)))"
    proof
      fix kv assume kv: "kv \<in> set (per_org st)"
      with keys have mem: "fst kv \<in> set orgs" by auto
      from assms(3) have "distinct orgs" by (simp add: distinct_map)
      with keys kv have look: "map_of (per_org st) (fst kv) = Some (snd kv)" by simp
      from sh(12) kv obtain m where m: "repos_contributed (snd kv) = RepoCount m" by blast
      from flatten_at [OF fl assms(3) mem look counter_items_mem(9)] m
      show "number_at d (org_prefix (fst kv) @ ''repos_contributed'') = Some (int (repo_count (snd kv)))"
        by (simp add: number_at_def repo_count_def)
    qed
    from org_total_sum [OF this] keys
    have "org_total d orgs ''repos_contributed'' = Some (int (org_sum repo_count (per_org st)))"
      by simp
    with top [of "''repos_contributed''"] n show ?thesis
      by (simp add: at_most_sum_def number_at_def top_items_at counter_keys_def)
  qed
  ultimately show ?thesis by simp
qed

text \<open>A user with contributions to two organizations.\<close>

theorem overall_counters_are_sums_witness:
  "\<exists>d s'. get_user_stats two_org_host 2 ''alice'' (fresh [''acme'', ''beta'']) = Some (Inr d, s')
      \<and> distinct (map org_prefix [''acme'', ''beta''])
      \<and> number_at d ''pr_total'' = Some 3
      \<and> org_total d [''acme'', ''beta''] ''pr_total'' = Some 3
      \<and> number_at d ''acme_pr_total'' = Some 2
      \<and> number_at d ''beta_pr_total'' = Some 1
      \<and> number_at d ''commits'' = Some 6
      \<and> org_total d [''acme'', ''beta''] ''commits'' = Some 6
      \<and> at_most_sum d [''acme'', ''beta''] ''repos_contributed''"
proof -
  from two_org_run obtain d s' where
    run: "get_user_stats two_org_host 2 ''alice'' (fresh [''acme'', ''beta'']) = Some (Inr d, s')"
    and v: "map_of d ''pr_total'' = Some (JNum 3)" "map_of d ''acme_pr_total'' = Some (JNum 2)"
      "map_of d ''beta_pr_total'' = Some (JNum 1)" "map_of d ''commits'' = Some (JNum 6)"
    by blast
  have o: "[''acme'', ''beta''] = organizations (fresh [''acme'', ''beta''])"
    by (simp add: fresh_def)
  have dis: "distinct (map org_prefix [''acme'', ''beta''])"
    by (simp add: org_prefix_def)
  from overall_counters_are_sums [OF run o dis] have
    s: "is_sum d [''acme'', ''beta''] ''pr_total''" "is_sum d [''acme'', ''beta''] ''commits''"
      "at_most_sum d [''acme'', ''beta''] ''repos_contributed''"
    by simp_all
  from v have n: "number_at d ''pr_total'' = Some 3" "number_at d ''acme_pr_total'' = Some 2"
    "number_at d ''beta_pr_total'' = Some 1" "number_at d ''commits'' = Some 6"
    by (simp_all add: number_at_def)
  from s(1,2) n(1,4) have "org_total d [''acme'', ''beta''] ''pr_total'' = Some 3"
    "org_total d [''acme'', ''beta''] ''commits'' = Some 6"
    unfolding is_sum_def by simp_all
  with run dis n s(3) show ?thesis by blast
qed

text \<open>
  The organizations \<^verbatim>\<open>a-b\<close> and \<^verbatim>\<open>a_b\<close> have the same prefix, so the counters of the second
  replace those of the first in the record: with one pull request in \<^verbatim>\<open>a-b\<close> the overall
  \<^verbatim>\<open>pr_total\<close> is 1 and the counters of the organizations add up to 0.
\<close>

theorem overall_counters_counterexample:
  "map_option fst (get_user_stats clash_host 2 ''alice'' (fresh [''a-b'', ''a_b''])) =
     Some (Inr clash_record)
   \<and> number_at clash_record ''pr_total'' = Some 1
   \<and> org_total clash_record [''a-b'', ''a_b''] ''pr_total'' = Some 0"
proof -
  have "number_at clash_record ''pr_total'' = Some 1"
    by (simp add: number_at_def clash_record_def)
  moreover have "org_total clash_record [''a-b'', ''a_b''] ''pr_total'' = Some 0"
    by (simp add: number_at_def clash_record_def org_prefix_def)
  ultimately show ?thesis using clash_run by simp
qed

section \<open>The run orchestrator\<close>

text \<open>
  Claim C4, as amended. When the analysis of a user fails with an error whose message does
  not contain \<^verbatim>\<open>API rate limit exceeded\<close>, \<^verbatim>\<open>analyze_users\<close> logs the error and goes on to
  the next user: the user is not analysed again (no further request is issued for the
  user), is not added to the completed users, and no checkpoint is written.
\<close>

theorem other_failure_skips_user:
  assumes "get_user_stats net fuel user (wait_for_rate_limit net (update_rate_limit_info net s)) =
             Some (Inl e, s1)"
    and "\<not> contains ''API rate limit exceeded'' (err_str e)"
    and "s2 = log_error (''Error analyzing '' @ user @ '': '' @ err_str e) s1"
  shows "analyze_user net fuel user results s = Some (results, s2)
       \<and> users_loop net fuel (user # pending) results s = users_loop net fuel pending results s2
       \<and> reqs s2 = reqs s1
       \<and> completed_users s2 = completed_users s
       \<and> checkpoints (trace s2) = checkpoints (trace s)"
proof -
  from assms have a: "analyze_user net fuel user results s = Some (results, s2)"
    by (simp add: analyze_user_def Let_def)
  from get_user_stats_config [OF assms(1)] have "config s1 = config s" by simp
  then have "config s2 = config s" using assms(3) by simp
  from config_eqD [OF this] a assms(3) show ?thesis by simp
qed

theorem other_failure_counterexample:
  "map_option fst
     (get_user_stats (script_net []) 4 ''alice''
        (wait_for_rate_limit (script_net [])
           (update_rate_limit_info (script_net []) (fresh [''acme''])))) =
     Some (Inl (NetworkError ''unreachable''))
   \<and> \<not> contains ''API rate limit exceeded'' (err_str (NetworkError ''unreachable''))
   \<and> map_option (checkpoints \<circ> trace \<circ> snd)
       (analyze_user (script_net []) 4 ''alice'' [] (fresh [''acme''])) = Some []"
proof -
  from unreachable_analysis obtain s1 where
    f: "get_user_stats (script_net []) 4 ''alice''
           (wait_for_rate_limit (script_net []) (update_rate_limit_info (script_net []) (fresh [''acme'']))) =
         Some (Inl (NetworkError ''unreachable''), s1)" by blast
  have n: "\<not> contains ''API rate limit exceeded'' (err_str (NetworkError ''unreachable''))"
    by simp
  from get_user_stats_config [OF f] have "config s1 = config (fresh [''acme''])" by simp
  then have "checkpoints (trace s1) = []" by (simp add: config_def fresh_def)
  with analyze_user_skip [OF f n, of "[]"] f n show ?thesis by simp
qed

theorem other_failure_skips_user_witness:
  "map_option fst (analyze_user (script_net []) 4 ''alice'' [] (fresh [''acme''])) = Some []
   \<and> map_option (completed_users \<circ> snd)
       (analyze_user (script_net []) 4 ''alice'' [] (fresh [''acme''])) = Some {}
   \<and> users_loop (script_net []) 4 [''alice''] [] (fresh [''acme'']) =
       analyze_user (script_net []) 4 ''alice'' [] (fresh [''acme''])"
proof -
  from unreachable_analysis obtain s1 where
    f: "get_user_stats (script_net []) 4 ''alice''
           (wait_for_rate_limit (script_net []) (update_rate_limit_info (script_net []) (fresh [''acme'']))) =
         Some (Inl (NetworkError ''unreachable''), s1)" by blast
  have n: "\<not> contains ''API rate limit exceeded'' (err_str (NetworkError ''unreachable''))"
    by simp
  from other_failure_skips_user [OF f n refl, of "[]" "[]"]
  show ?thesis by (simp add: fresh_def)
qed

text \<open>
  Claim C5. When the analysis of a user fails with an error whose message contains
  \<^verbatim>\<open>API rate limit exceeded\<close>, \<^verbatim>\<open>analyze_users\<close> logs the error, refreshes the quota,
  waits for the rate limit and analyses the user once more. If that second analysis
  succeeds, the record is appended and the user completed. If it fails, the failure is
  logged, the checkpoint is written with the completed users as they were, and the loop
  goes on to the next user: there is no third analysis, and the user is not added to the
  completed users.
\<close>

theorem quota_failure_retried_once:
  assumes "get_user_stats net fuel user (wait_for_rate_limit net (update_rate_limit_info net s)) =
             Some (Inl e, s1)"
    and "contains ''API rate limit exceeded'' (err_str e)"
    and "s2 = wait_for_rate_limit net (update_rate_limit_info net
                (log_error (''Error analyzing '' @ user @ '': '' @ err_str e) s1))"
  shows "(\<forall>user_stats s3. get_user_stats net fuel user s2 = Some (Inr user_stats, s3) \<longrightarrow>
            analyze_user net fuel user results s = Some (record_success user user_stats results s3))
       \<and> (\<forall>retry_error s3 s4.
            get_user_stats net fuel user s2 = Some (Inl retry_error, s3) \<longrightarrow>
            s4 = save_progress
                   (log_error (''Failed retry for '' @ user @ '': '' @ err_str retry_error) s3) \<longrightarrow>
            analyze_user net fuel user results s = Some (results, s4)
            \<and> users_loop net fuel (user # pending) results s = users_loop net fuel pending results s4
            \<and> reqs s4 = reqs s3
            \<and> completed_users s4 = completed_users s
            \<and> checkpoints (trace s4) = checkpoints (trace s) @ [completed_users s])"
proof (intro conjI allI impI)
  fix user_stats s3
  assume "get_user_stats net fuel user s2 = Some (Inr user_stats, s3)"
  with assms show "analyze_user net fuel user results s = Some (record_success user user_stats results s3)"
    by (simp add: analyze_user_def Let_def)
next
  fix retry_error s3 s4
  assume retry: "get_user_stats net fuel user s2 = Some (Inl retry_error, s3)"
    and s4: "s4 = save_progress (log_error (''Failed retry for '' @ user @ '': '' @ err_str retry_error) s3)"
  from assms retry s4 show a: "analyze_user net fuel user results s = Some (results, s4)"
    by (simp add: analyze_user_def Let_def)
  then show "users_loop net fuel (user # pending) results s = users_loop net fuel pending results s4"
    by simp
  from s4 show "reqs s4 = reqs s3" by simp
  from get_user_stats_config [OF assms(1)] have "config s1 = config s" by simp
  with assms(3) have "config s2 = config s" by simp
  with get_user_stats_config [OF retry] have "config s3 = config s" by simp
  then have c: "config (log_error (''Failed retry for '' @ user @ '': '' @ err_str retry_error) s3) = config s"
    by simp
  from config_eqD(1) [OF c] s4 show "completed_users s4 = completed_users s" by simp
  from config_eqD(1,5) [OF c] s4
  show "checkpoints (trace s4) = checkpoints (trace s) @ [completed_users s]" by simp
qed

theorem quota_failure_retried_once_witness:
  "map_option fst (analyze_user exhausted_host 4 ''alice'' [] (fresh [''acme''])) = Some []
   \<and> map_option (completed_users \<circ> snd)
       (analyze_user exhausted_host 4 ''alice'' [] (fresh [''acme''])) = Some {}
   \<and> map_option (checkpoints \<circ> trace \<circ> snd)
       (analyze_user exhausted_host 4 ''alice'' [] (fresh [''acme''])) = Some [{}]
   \<and> map_option (length \<circ> fst)
       (analyze_user recovering_host 4 ''alice'' [] (fresh [''acme''])) = Some 1
   \<and> map_option (completed_users \<circ> snd)
       (analyze_user recovering_host 4 ''alice'' [] (fresh [''acme''])) = Some {''alice''}"
proof -
  let ?e = "RequestFailed 403 ''API rate limit exceeded for user''"
  let ?url = "search_url ''author'' ''alice'' ''acme'' ''pr'' []"
  let ?log = "\<lambda>s. log_error (''Error fetching stats for '' @ ''alice'' @ '': '' @ err_str ?e) s"
  have q: "contains ''API rate limit exceeded'' (err_str ?e)" by simp
  have c0: "completed_users (fresh [''acme'']) = {}" "checkpoints (trace (fresh [''acme''])) = []"
    by (simp_all add: fresh_def)
  have fr: "organizations (fresh [''acme'']) = [''acme'']" "time_filter (fresh [''acme'']) = []"
    "cache (fresh [''acme'']) = Map.empty" "rate_limit_remaining (fresh [''acme'']) = 5000"
    "rate_limit_reset (fresh [''acme'']) = 0" "now (fresh [''acme'']) = 1000"
    "reqs (fresh [''acme'']) = 0"
    by (simp_all add: fresh_def)
  have first_run: "\<exists>s1. get_user_stats net 4 ''alice''
                         (wait_for_rate_limit net (update_rate_limit_info net (fresh [''acme''])))
                       = Some (Inl ?e, s1)
                     \<and> organizations s1 = [''acme''] \<and> time_filter s1 = [] \<and> cache s1 = Map.empty
                     \<and> rate_limit_remaining s1 = 0 \<and> rate_limit_reset s1 = 990
                     \<and> now s1 = 1000 \<and> reqs s1 = 3"
    if n0: "net 0 = ok_response JNull" and n1: "net (Suc 0) = Response (quota_exceeded 990)"
      and n2: "net 2 = ConnError m \<or> net 2 = ok_response JNull" for net m
  proof -
    let ?u = "update_rate_limit_info net (fresh [''acme''])"
    have u: "rate_limit_remaining ?u = 5000" "rate_limit_reset ?u = 0"
      using refresh_no_data_fields [of net "fresh [''acme'']" m] n0 by (simp_all add: fr)
    have w0: "wait_for_rate_limit net ?u = ?u" using u by (simp add: wait_enough)
    have w1: "wait_for_rate_limit net (wait_for_rate_limit net ?u) = wait_for_rate_limit net ?u"
      using u w0 by simp
    let ?s2 = "note_headers (quota_exceeded 990) (requested ?url ?u)"
    have fetch: "paginated_request net (Suc 3) ?url ?u = Some (Inl ?e, update_rate_limit_info net ?s2)"
      using quota_fetch_fails [of ?url ?u net "quota_exceeded 990" 3] w0 n1 quota_phrase [of 990]
      by (simp add: fr)
    have r2: "net (reqs ?s2) = ConnError m \<or> net (reqs ?s2) = ok_response JNull"
      using n2 by (simp add: fr numeral_2_eq_2)
    from first_fetch_fails [of ?u "''acme''" "[]" net 4 "''alice''" ?e "update_rate_limit_info net ?s2"]
      fetch w0
    have "get_user_stats net 4 ''alice'' (wait_for_rate_limit net ?u) =
            Some (Inl ?e, ?log (update_rate_limit_info net ?s2))"
      by (simp add: fr)
    moreover have "rate_limit_remaining (update_rate_limit_info net ?s2) = 0"
      "rate_limit_reset (update_rate_limit_info net ?s2) = 990"
      using refresh_no_data_fields [of net ?s2 m] r2 by simp_all
    ultimately show ?thesis by (simp add: fr)
  qed
  \<comment> \<open>the retry fails\<close>
  have "\<exists>s1. get_user_stats exhausted_host 4 ''alice''
                         (wait_for_rate_limit exhausted_host
                            (update_rate_limit_info exhausted_host (fresh [''acme''])))
                       = Some (Inl ?e, s1)
                     \<and> organizations s1 = [''acme''] \<and> time_filter s1 = [] \<and> cache s1 = Map.empty
                     \<and> rate_limit_remaining s1 = 0 \<and> rate_limit_reset s1 = 990
                     \<and> now s1 = 1000 \<and> reqs s1 = 3"
    by (rule first_run [where m = "''unreachable''"])
       (simp_all add: exhausted_host_def script_net_def)
  then obtain s1 where first: "get_user_stats exhausted_host 4 ''alice''
                         (wait_for_rate_limit exhausted_host
                            (update_rate_limit_info exhausted_host (fresh [''acme''])))
                       = Some (Inl ?e, s1)"
    and f1: "organizations s1 = [''acme'']" "time_filter s1 = []" "cache s1 = Map.empty"
      "rate_limit_remaining s1 = 0" "rate_limit_reset s1 = 990" "now s1 = 1000" "reqs s1 = 3"
    by blast
  let ?s2 = "wait_for_rate_limit exhausted_host (update_rate_limit_info exhausted_host
                (log_error (''Error analyzing '' @ ''alice'' @ '': '' @ err_str ?e) s1))"
  have "\<exists>s3. get_user_stats exhausted_host 4 ''alice'' ?s2 = Some (Inl (NetworkError ''unreachable''), s3)"
  proof -
    have o: "organizations ?s2 = [''acme'']" by (simp add: f1)
    have c: "cache ?s2 (search_url ''author'' ''alice'' ''acme'' ''pr'' (time_filter ?s2)) = None"
      by (simp add: f1)
    have r: "rate_limit_reset ?s2 \<le> now ?s2" "reqs ?s2 = 4"
      by (simp_all add: f1 wait_for_rate_limit_def update_rate_limit_info_def http_get_def
            exhausted_host_def script_net_def Let_def)
    have w: "wait_for_rate_limit exhausted_host ?s2 = ?s2"
      using r(1) by (rule wait_idle)
    have d: "\<And>i. i < 4 \<Longrightarrow> exhausted_host (reqs ?s2 + i) = ConnError ''unreachable''"
      using r(2) by (simp add: exhausted_host_def script_net_def)
    from first_fetch_fails [OF o dead_fetch [OF search_url_nonempty c w d]]
    show ?thesis by blast
  qed
  then obtain s3 where
    retry: "get_user_stats exhausted_host 4 ''alice'' ?s2 = Some (Inl (NetworkError ''unreachable''), s3)"
    by blast
  from quota_failure_retried_once [OF first q refl, of "[]" "[]"] retry c0
  have a: "map_option fst (analyze_user exhausted_host 4 ''alice'' [] (fresh [''acme''])) = Some []
   \<and> map_option (completed_users \<circ> snd)
       (analyze_user exhausted_host 4 ''alice'' [] (fresh [''acme''])) = Some {}
   \<and> map_option (checkpoints \<circ> trace \<circ> snd)
       (analyze_user exhausted_host 4 ''alice'' [] (fresh [''acme''])) = Some [{}]"
    by simp
  \<comment> \<open>the retry succeeds\<close>
  have "\<exists>s1. get_user_stats recovering_host 4 ''alice''
                         (wait_for_rate_limit recovering_host
                            (update_rate_limit_info recovering_host (fresh [''acme''])))
                       = Some (Inl ?e, s1)
                     \<and> organizations s1 = [''acme''] \<and> time_filter s1 = [] \<and> cache s1 = Map.empty
                     \<and> rate_limit_remaining s1 = 0 \<and> rate_limit_reset s1 = 990
                     \<and> now s1 = 1000 \<and> reqs s1 = 3"
    by (rule first_run [where m = "''unreachable''"])
       (simp_all add: recovering_host_def script_net_def)
  then obtain t1 where first': "get_user_stats recovering_host 4 ''alice''
                         (wait_for_rate_limit recovering_host
                            (update_rate_limit_info recovering_host (fresh [''acme''])))
                       = Some (Inl ?e, t1)"
    and g1: "organizations t1 = [''acme'']" "time_filter t1 = []" "cache t1 = Map.empty"
      "rate_limit_remaining t1 = 0" "rate_limit_reset t1 = 990" "now t1 = 1000" "reqs t1 = 3"
    by blast
  let ?t2 = "wait_for_rate_limit recovering_host (update_rate_limit_info recovering_host
                (log_error (''Error analyzing '' @ ''alice'' @ '': '' @ err_str ?e) t1))"
  have "\<exists>d t3. get_user_stats recovering_host 4 ''alice'' ?t2 = Some (Inr d, t3)"
    by (simp add: g1 stats_defs eval_defs quota_defs recovering_host_def eval_nat_numeral)
  then obtain d t3 where retry': "get_user_stats recovering_host 4 ''alice'' ?t2 = Some (Inr d, t3)"
    by blast
  have k: "completed_users t3 = {}"
    using get_user_stats_config [OF retry'] get_user_stats_config [OF first']
    by (simp add: config_def fresh_def)
  from quota_failure_retried_once [OF first' q refl, of "[]" "[]"] retry' k
  have b: "map_option (length \<circ> fst)
       (analyze_user recovering_host 4 ''alice'' [] (fresh [''acme''])) = Some 1
   \<and> map_option (completed_users \<circ> snd)
       (analyze_user recovering_host 4 ''alice'' [] (fresh [''acme''])) = Some {''alice''}"
    by (simp add: record_success_def)
  from a b show ?thesis by simp
qed

text \<open>
  Claim C10. The pending users are the given names that are not among the completed users
  at the start, and the loop does not look at the completed users again. So when a name that
  is not completed at the start occurs twice in the list and the analysis of an occurrence
  succeeds with a record, every later occurrence is analysed again, succeeds with the same
  record (its queries are answered from the cache) and the record is appended again: the
  returned list holds it at least twice.
\<close>

theorem duplicate_username_duplicate_record:
  assumes "user \<notin> completed_users s"
    and "users_loop net fuel [u \<leftarrow> before. u \<notin> completed_users s] [] s = Some (results0, s0)"
    and "analyze_user net fuel user results0 s0 = Some (results0 @ [JDict d], s1)"
    and "analyze_users net fuel (before @ user # others @ user # rest) s = Some (results, s')"
  shows "2 \<le> count_list results (JDict d)"
proof -
  let ?f = "\<lambda>us. [u \<leftarrow> us. u \<notin> completed_users s]"
  from analyze_users_Some [OF assms(4)] obtain rs sl more where
    loop: "users_loop net fuel (?f (before @ user # others @ user # rest)) [] s = Some (rs, sl)"
    and res: "results = rs @ more" by blast
  from assms(1) have p: "?f (before @ user # others @ user # rest) =
      ?f before @ user # (?f others @ user # ?f rest)" by simp
  from loop assms(2) have "users_loop net fuel (user # (?f others @ user # ?f rest)) results0 s0 = Some (rs, sl)"
    unfolding p by (simp add: users_loop_append)
  with assms(3) have "users_loop net fuel (?f others @ user # ?f rest) (results0 @ [JDict d]) s1 = Some (rs, sl)"
    by simp
  then obtain rs2 s2 where mid: "users_loop net fuel (?f others) (results0 @ [JDict d]) s1 = Some (rs2, s2)"
    and tail: "users_loop net fuel (user # ?f rest) rs2 s2 = Some (rs, sl)"
    by (auto simp: users_loop_append split: option.splits)
  from users_loop_static [OF mid] obtain m2 where
    st2: "time_filter s2 = time_filter s1" "organizations s2 = organizations s1"
    and rs2: "rs2 = results0 @ [JDict d] @ m2" by auto
  from analyze_user_cases [OF assms(3)] obtain d' sa sb where
    "results0 @ [JDict d] = results0 @ [JDict d']"
    and g: "get_user_stats net fuel user sa = Some (Inr d', sb)"
    and st1: "time_filter sa = time_filter s0" "organizations sa = organizations s0"
      "cache s1 = cache sb" "time_filter s1 = time_filter s0" "organizations s1 = organizations s0"
    by auto
  then have d: "d' = d" by simp
  from users_loop_grows [OF mid] st1(3) have c: "cache sb \<subseteq>\<^sub>m cache s2" by simp
  from st1 st2 have e: "time_filter s2 = time_filter sa" "organizations s2 = organizations sa"
    by simp_all
  from analyze_user_again [OF g [unfolded d] c e, of net fuel rs2] obtain s3 where
    again: "analyze_user net fuel user rs2 s2 = Some (rs2 @ [JDict d], s3)" by blast
  with tail have "users_loop net fuel (?f rest) (rs2 @ [JDict d]) s3 = Some (rs, sl)" by simp
  from users_loop_static [OF this] obtain m3 where "rs = (rs2 @ [JDict d]) @ m3" by auto
  with rs2 res have "results = results0 @ [JDict d] @ m2 @ [JDict d] @ m3 @ more" by simp
  then show ?thesis by simp
qed

theorem duplicate_username_duplicate_record_witness:
  "\<exists>results s'. analyze_users empty_host 2 [''alice'', ''alice''] (fresh [''acme'']) = Some (results, s')
     \<and> 2 \<le> count_list results (JDict (idle_record ''alice''))"
proof -
  let ?s = "fresh [''acme'']"
  have nc: "''alice'' \<notin> completed_users ?s" by (simp add: fresh_def)
  have before: "users_loop empty_host 2 [u \<leftarrow> []. u \<notin> completed_users ?s] [] ?s = Some ([], ?s)"
    by simp
  from idle_analysis obtain s1 where
    first: "analyze_user empty_host 2 ''alice'' [] ?s = Some ([] @ [JDict (idle_record ''alice'')], s1)"
    by blast
  from analyze_user_cases [OF first] obtain d sa sb where
    "[] @ [JDict (idle_record ''alice'')] = [] @ [JDict d]"
    and g: "get_user_stats empty_host 2 ''alice'' sa = Some (Inr d, sb)"
    and st: "time_filter sa = time_filter ?s" "organizations sa = organizations ?s"
      "cache s1 = cache sb" "time_filter s1 = time_filter ?s" "organizations s1 = organizations ?s"
    by auto
  then have d: "d = idle_record ''alice''" by simp
  have "cache sb \<subseteq>\<^sub>m cache s1" "time_filter s1 = time_filter sa" "organizations s1 = organizations sa"
    using st by simp_all
  from analyze_user_again [OF g [unfolded d] this, of empty_host 2 "[JDict (idle_record ''alice'')]"]
  obtain s2 where second: "analyze_user empty_host 2 ''alice'' [JDict (idle_record ''alice'')] s1 =
      Some ([JDict (idle_record ''alice'')] @ [JDict (idle_record ''alice'')], s2)" by blast
  from first second
  have "users_loop empty_host 2 [u \<leftarrow> [''alice'', ''alice'']. u \<notin> completed_users ?s] [] ?s =
        Some ([JDict (idle_record ''alice''), JDict (idle_record ''alice'')], s2)"
    using nc by simp
  from analyze_users_returns [OF this] obtain results s' where
    run: "analyze_users empty_host 2 [''alice'', ''alice''] ?s = Some (results, s')" by blast
  from duplicate_username_duplicate_record [of "''alice''" ?s empty_host 2 "[]" "[]" ?s
      "idle_record ''alice''" s1 "[]" "[]" results s'] nc before first run
  have "2 \<le> count_list results (JDict (idle_record ''alice''))" by simp
  with run show ?thesis by blast
qed

end
